theory Spec2Isabelle
  imports Main "HOL-Library.Word"
begin

section \<open>Bytes, C strings and the character classes\<close>

text \<open>
  A C \<open>char\<close> is a byte. Arithmetic on \<open>cval\<close> in \<open>gettok\<close> is done in
  \<open>unsigned int\<close> and stored back into a \<open>char\<close>, that is, modulo 256, which is
  the arithmetic of \<open>8 word\<close>.
\<close>

type_synonym byte = "8 word"

text \<open>
  A \<open>char *\<close> argument is modelled by the bytes found at the pointer; the C string it
  denotes ends before the first NUL.
\<close>

definition cstring :: "byte list \<Rightarrow> byte list" where
  "cstring m = takeWhile (\<lambda>c. c \<noteq> 0) m"

text \<open>
  Reading the working buffer at an index. The buffer of \<open>str_to_argv\<close> is the copy made
  by \<open>strdup\<close>, terminator included; beyond the end of the list the model reads NUL, so
  that every scan stops there.
\<close>

definition rd :: "byte list \<Rightarrow> nat \<Rightarrow> byte" where
  "rd b i = (if i < length b then b ! i else 0)"

text \<open>The classification functions of \<open>ctype.h\<close>, in the C locale.\<close>

definition isdigit :: "byte \<Rightarrow> bool" where
  "isdigit c \<longleftrightarrow> 0x30 \<le> c \<and> c \<le> 0x39"

definition isupper :: "byte \<Rightarrow> bool" where
  "isupper c \<longleftrightarrow> 0x41 \<le> c \<and> c \<le> 0x5A"

definition isxdigit :: "byte \<Rightarrow> bool" where
  "isxdigit c \<longleftrightarrow> isdigit c \<or> (0x41 \<le> c \<and> c \<le> 0x46) \<or> (0x61 \<le> c \<and> c \<le> 0x66)"

text \<open>\<open>strchr(seps, c)\<close> for a non-NUL \<open>c\<close>.\<close>

definition strchr :: "byte list \<Rightarrow> byte \<Rightarrow> bool" where
  "strchr seps c \<longleftrightarrow> c \<in> set (cstring seps)"

definition is_sep_space :: "byte \<Rightarrow> byte list \<Rightarrow> bool" where
  "is_sep_space c seps \<longleftrightarrow> c \<noteq> 0 \<and> strchr seps c"

function skip_spaces :: "byte list \<Rightarrow> nat \<Rightarrow> byte list \<Rightarrow> nat" where
  "skip_spaces b s seps = (if is_sep_space (rd b s) seps then skip_spaces b (s + 1) seps else s)"
  by pat_completeness auto
termination
  by (relation "measure (\<lambda>(b, s, seps). length b - s)")
     (auto simp: is_sep_space_def rd_def split: if_splits)

declare skip_spaces.simps [simp del]

definition isodigit :: "byte \<Rightarrow> bool" where
  "isodigit c \<longleftrightarrow> isdigit c \<and> c \<noteq> 0x38 \<and> c \<noteq> 0x39"

section \<open>gettok\<close>

text \<open>
  The local variables of \<open>gettok\<close> and the buffer it rewrites in place. \<open>ptr_p\<close> and
  \<open>ptr_o\<close> are the read cursor \<open>p\<close> and the write cursor \<open>o\<close>, as indices into the
  buffer. \<open>escape\<close> and \<open>base\<close> are \<open>unsigned int\<close> in the source; they stay below
  17, so they are natural numbers here.
\<close>

record gt =
  ptr_p :: nat
  ptr_o :: nat
  inquote :: byte
  escape :: nat
  base :: nat
  cval :: byte
  buf :: "byte list"

text \<open>\<open>*o++ = v\<close>\<close>

definition put :: "byte \<Rightarrow> gt \<Rightarrow> gt" where
  "put v st = st\<lparr>buf := (buf st)[ptr_o st := v], ptr_o := ptr_o st + 1\<rparr>"

text \<open>The \<open>switch\<close> on the character after a backslash: the byte written.\<close>

definition named_escape :: "byte \<Rightarrow> byte" where
  "named_escape c =
     (if c = 0x61 then 0x07
      else if c = 0x62 then 0x08
      else if c = 0x66 then 0x0C
      else if c = 0x6E then 0x0A
      else if c = 0x72 then 0x0D
      else if c = 0x74 then 0x09
      else if c = 0x76 then 0x0B
      else c)"

text \<open>
  The code from the label \<open>process_char\<close> to the end of the loop body. The boolean is
  True when the body leaves the loop by \<open>break\<close> (after \<open>p++\<close>).
\<close>

definition process_char :: "byte list \<Rightarrow> gt \<Rightarrow> bool \<times> gt" where
  "process_char seps st =
     (let c = rd (buf st) (ptr_p st) in
      if c = inquote st then (False, st\<lparr>inquote := 0\<rparr>)
      else if inquote st = 0 \<and> (c = 0x27 \<or> c = 0x22) then (False, st\<lparr>inquote := c\<rparr>)
      else if c = 0x5C then (False, st\<lparr>escape := 1\<rparr>)
      else if inquote st = 0 \<and> is_sep_space c seps then (True, st\<lparr>ptr_p := ptr_p st + 1\<rparr>)
      else (False, put c st))"

text \<open>The digit accumulation of lines 164 to 169.\<close>

definition accumulate :: "byte \<Rightarrow> nat \<Rightarrow> byte \<Rightarrow> byte" where
  "accumulate v b c =
     (if isodigit c then v * of_nat b + c - 0x30
      else if isupper c then v * of_nat b + c - 0x41
      else v * of_nat b + c - 0x61)"

text \<open>One pass through the body of the \<open>for\<close> loop, without the \<open>p++\<close> of its header.\<close>

definition loop_body :: "byte list \<Rightarrow> gt \<Rightarrow> bool \<times> gt" where
  "loop_body seps st =
     (let c = rd (buf st) (ptr_p st) in
      if escape st \<noteq> 0 then
        if escape st = 1 then
          if isodigit c then
            (False, st\<lparr>cval := c - 0x30, base := 8, escape := escape st + 1\<rparr>)
          else if c = 0x78 then
            (False, st\<lparr>cval := 0, base := 16, escape := escape st + 1\<rparr>)
          else
            (False, (put (named_escape c) (st\<lparr>cval := 0\<rparr>))\<lparr>escape := 0\<rparr>)
        else
          if (base st = 16 \<and> isxdigit c) \<or> isodigit c then
            (let st1 = st\<lparr>cval := accumulate (cval st) (base st) c\<rparr> in
             if escape st \<ge> 3 then (False, (put (cval st1) st1)\<lparr>escape := 0\<rparr>)
             else (False, st1\<lparr>escape := escape st + 1\<rparr>))
          else
            process_char seps ((put (cval st) st)\<lparr>escape := 0\<rparr>)
      else process_char seps st)"

lemma loop_body_keeps:
  assumes "loop_body seps st = (False, st')"
  shows "ptr_p st' = ptr_p st" and "length (buf st') = length (buf st)"
  using assms
  by (auto simp: loop_body_def process_char_def put_def Let_def split: if_splits)

function gettok_loop :: "byte list \<Rightarrow> gt \<Rightarrow> gt" where
  "gettok_loop seps st =
     (if rd (buf st) (ptr_p st) = 0 then st
      else (case loop_body seps st of
              (brk, st') \<Rightarrow> if brk then st' else gettok_loop seps (st'\<lparr>ptr_p := ptr_p st' + 1\<rparr>)))"
  by pat_completeness auto
termination
proof (relation "measure (\<lambda>(seps, st). length (buf st) - ptr_p st)")
  show "wf (measure (\<lambda>(seps, st). length (buf st) - ptr_p st))"
    by simp
next
  fix seps :: "byte list" and st st' :: gt and brk :: bool
  assume nz: "rd (buf st) (ptr_p st) \<noteq> 0"
    and body: "(brk, st') = loop_body seps st" and "\<not> brk"
  then have b: "loop_body seps st = (False, st')"
    by simp
  from nz have "ptr_p st < length (buf st)"
    by (simp add: rd_def split: if_splits)
  with loop_body_keeps [OF b]
  show "((seps, st'\<lparr>ptr_p := ptr_p st' + 1\<rparr>), (seps, st))
          \<in> measure (\<lambda>(seps, st). length (buf st) - ptr_p st)"
    by simp
qed

declare gettok_loop.simps [simp del]

text \<open>
  What \<open>gettok\<close> did to its out parameter \<open>*tok\<close>: nothing (the failure path), set it
  to NULL, or set it to the start of the token.
\<close>

datatype tokout = Unset | SetNull | SetTok nat

record gettok_result =
  rv :: int
  s_out :: nat
  tok_out :: tokout
  buf_out :: "byte list"

text \<open>The flush after the loop and the two returns that follow it.\<close>

definition gettok_finish :: "nat \<Rightarrow> gt \<Rightarrow> gettok_result" where
  "gettok_finish t st =
     (let st1 = (if (base st = 8 \<and> escape st > 1) \<or> (base st = 16 \<and> escape st > 2)
                 then (put (cval st) st)\<lparr>escape := 0\<rparr> else st)
      in if inquote st1 \<noteq> 0 \<or> escape st1 \<noteq> 0
         then \<lparr>rv = - 1, s_out = ptr_p st1, tok_out = Unset, buf_out = buf st1\<rparr>
         else \<lparr>rv = 0, s_out = ptr_p st1, tok_out = SetTok t,
               buf_out = (buf st1)[ptr_o st1 := 0]\<rparr>)"

definition gettok :: "byte list \<Rightarrow> nat \<Rightarrow> byte list \<Rightarrow> gettok_result" where
  "gettok b s seps =
     (let t = skip_spaces b s seps in
      if rd b t = 0 then \<lparr>rv = 0, s_out = t, tok_out = SetNull, buf_out = b\<rparr>
      else gettok_finish t
             (gettok_loop seps
                \<lparr>ptr_p = t, ptr_o = t, inquote = 0, escape = 0, base = 8, cval = 0, buf = b\<rparr>))"

section \<open>Memory\<close>

text \<open>
  A \<open>char *\<close> value: indeterminate (a local that was never assigned, or a cell of a
  fresh \<open>malloc\<close> block), NULL, or the address of a character buffer with an offset.
\<close>

datatype ptr = Uninit | Null | Ref nat nat

text \<open>
  The allocator's state: the live character buffers and the live pointer arrays, each
  with its address, and the outcome of the coming allocation requests (True: the
  request fails; past the end of the list requests succeed).
\<close>

record heap =
  strs :: "(nat \<times> byte list) list"
  arrs :: "(nat \<times> ptr list) list"
  fails :: "bool list"

definition fresh :: "heap \<Rightarrow> nat" where
  "fresh h = Suc (foldr max (map fst (strs h) @ map fst (arrs h)) 0)"

definition next_fails :: "heap \<Rightarrow> bool \<times> heap" where
  "next_fails h = (case fails h of [] \<Rightarrow> (False, h) | f # fs \<Rightarrow> (f, h\<lparr>fails := fs\<rparr>))"

definition chars :: "heap \<Rightarrow> nat \<Rightarrow> byte list" where
  "chars h a = (case map_of (strs h) a of Some b \<Rightarrow> b | None \<Rightarrow> [])"

definition ptrs :: "heap \<Rightarrow> nat \<Rightarrow> ptr list" where
  "ptrs h a = (case map_of (arrs h) a of Some c \<Rightarrow> c | None \<Rightarrow> [])"

definition set_chars :: "nat \<Rightarrow> byte list \<Rightarrow> heap \<Rightarrow> heap" where
  "set_chars a b h = h\<lparr>strs := map (\<lambda>kv. if fst kv = a then (a, b) else kv) (strs h)\<rparr>"

text \<open>\<open>argv[i] = v\<close> for the array at address \<open>a\<close>.\<close>

definition set_ptr :: "nat \<Rightarrow> nat \<Rightarrow> ptr \<Rightarrow> heap \<Rightarrow> heap" where
  "set_ptr a i v h =
     h\<lparr>arrs := map (\<lambda>kv. if fst kv = a then (a, (snd kv)[i := v]) else kv) (arrs h)\<rparr>"

definition strdup :: "byte list \<Rightarrow> heap \<Rightarrow> nat option \<times> heap" where
  "strdup ins h =
     (case next_fails h of
        (True, h') \<Rightarrow> (None, h')
      | (False, h') \<Rightarrow> (Some (fresh h'), h'\<lparr>strs := (fresh h', cstring ins @ [0]) # strs h'\<rparr>))"

text \<open>\<open>malloc(sizeof(char *) * n)\<close>\<close>

definition malloc_ptrs :: "nat \<Rightarrow> heap \<Rightarrow> nat option \<times> heap" where
  "malloc_ptrs n h =
     (case next_fails h of
        (True, h') \<Rightarrow> (None, h')
      | (False, h') \<Rightarrow> (Some (fresh h'), h'\<lparr>arrs := (fresh h', replicate n Uninit) # arrs h'\<rparr>))"

definition free_chars :: "nat \<Rightarrow> heap \<Rightarrow> heap" where
  "free_chars a h = h\<lparr>strs := filter (\<lambda>kv. fst kv \<noteq> a) (strs h)\<rparr>"

definition free_ptrs :: "nat \<Rightarrow> heap \<Rightarrow> heap" where
  "free_ptrs a h = h\<lparr>arrs := filter (\<lambda>kv. fst kv \<noteq> a) (arrs h)\<rparr>"

text \<open>
  \<open>realloc(a, sizeof(char *) * n)\<close>: on failure the old block stays as it is; on
  success the cells move to a new block and the old one is released.
\<close>

definition realloc_ptrs :: "nat \<Rightarrow> nat \<Rightarrow> heap \<Rightarrow> nat option \<times> heap" where
  "realloc_ptrs a n h =
     (case next_fails h of
        (True, h') \<Rightarrow> (None, h')
      | (False, h') \<Rightarrow>
          (let old = ptrs h' a; h1 = free_ptrs a h'
           in (Some (fresh h1),
               h1\<lparr>arrs := (fresh h1, take n old @ replicate (n - length old) Uninit) # arrs h1\<rparr>)))"

section \<open>str\_to\_argv\<close>

definition ENOMEM :: int where
  "ENOMEM = 12"

definition default_seps :: "byte list" where
  "default_seps = [0x20, 0x0C, 0x0A, 0x0D, 0x09, 0x0B]"

text \<open>
  The local variables of \<open>str_to_argv\<close>. \<open>s_ptr\<close> is \<open>s\<close> as an offset into the
  buffer at \<open>orig_s\<close>.
\<close>

record sta =
  mem :: heap
  s_ptr :: nat
  argv :: nat
  tok :: ptr
  argc :: nat
  args :: nat
  err :: int

text \<open>\<open>err = gettok(&s, &tok, seps)\<close>\<close>

definition call_gettok :: "byte list \<Rightarrow> nat \<Rightarrow> sta \<Rightarrow> sta" where
  "call_gettok seps orig_s st =
     (let r = gettok (chars (mem st) orig_s) (s_ptr st) seps
      in st\<lparr>mem := set_chars orig_s (buf_out r) (mem st),
            s_ptr := s_out r,
            tok := (case tok_out r of Unset \<Rightarrow> tok st | SetNull \<Rightarrow> Null
                    | SetTok t \<Rightarrow> Ref orig_s t),
            err := rv r\<rparr>)"

text \<open>
  The \<open>if (argc >= args - 2)\<close> block at the head of the \<open>while\<close> body. The boolean is
  True when it leaves by \<open>goto out\<close>.
\<close>

definition grow_argv :: "sta \<Rightarrow> bool \<times> sta" where
  "grow_argv st =
     (if argc st \<ge> args st - 2 then
        (case realloc_ptrs (argv st) (args st + 10) (mem st) of
           (None, h) \<Rightarrow> (True, st\<lparr>mem := h, err := ENOMEM\<rparr>)
         | (Some nargv, h) \<Rightarrow> (False, st\<lparr>mem := h, argv := nargv, args := args st + 10\<rparr>))
      else (False, st))"

text \<open>The body of the \<open>while\<close> loop.\<close>

definition while_body :: "byte list \<Rightarrow> nat \<Rightarrow> sta \<Rightarrow> bool \<times> sta" where
  "while_body seps orig_s st =
     (case grow_argv st of
        (True, st1) \<Rightarrow> (True, st1)
      | (False, st1) \<Rightarrow>
          (False, call_gettok seps orig_s
             (st1\<lparr>mem := set_ptr (argv st1) (argc st1) (tok st1) (mem st1),
                   argc := argc st1 + 1\<rparr>)))"

section \<open>The scan moves forward and keeps the buffer's length\<close>

lemma skip_spaces_ge: "s \<le> skip_spaces b s seps"
proof (induction b s seps rule: skip_spaces.induct)
  case (1 b s seps)
  then show ?case
    by (subst skip_spaces.simps) (auto simp: le_Suc_eq)
qed

lemma loop_body_break:
  assumes "loop_body seps st = (True, st')"
  shows "ptr_p st' = ptr_p st + 1" and "length (buf st') = length (buf st)"
  using assms
  by (auto simp: loop_body_def process_char_def put_def Let_def split: if_splits)

lemma gettok_loop_stop: "rd (buf st) (ptr_p st) = 0 \<Longrightarrow> gettok_loop seps st = st"
  by (subst gettok_loop.simps) simp

lemma gettok_loop_break:
  "rd (buf st) (ptr_p st) \<noteq> 0 \<Longrightarrow> loop_body seps st = (True, st') \<Longrightarrow> gettok_loop seps st = st'"
  by (subst gettok_loop.simps) simp

lemma gettok_loop_step:
  "rd (buf st) (ptr_p st) \<noteq> 0 \<Longrightarrow> loop_body seps st = (False, st') \<Longrightarrow>
   gettok_loop seps st = gettok_loop seps (st'\<lparr>ptr_p := ptr_p st' + 1\<rparr>)"
  by (subst gettok_loop.simps) simp

lemma gettok_loop_cases [consumes 0, case_names stop break step]:
  assumes "\<And>st. rd (buf st) (ptr_p st) = 0 \<Longrightarrow> P st"
    and "\<And>st st'. rd (buf st) (ptr_p st) \<noteq> 0 \<Longrightarrow> loop_body seps st = (True, st') \<Longrightarrow> P st"
    and "\<And>st st'. rd (buf st) (ptr_p st) \<noteq> 0 \<Longrightarrow> loop_body seps st = (False, st') \<Longrightarrow>
           P (st'\<lparr>ptr_p := ptr_p st' + 1\<rparr>) \<Longrightarrow> P st"
  shows "P st"
proof -
  have "sp = seps \<Longrightarrow> P st" for sp
  proof (induction sp st rule: gettok_loop.induct)
    case (1 sp st)
    note sp = \<open>sp = seps\<close>
    show ?case
    proof (cases "rd (buf st) (ptr_p st) = 0")
      case True
      then show ?thesis by (rule assms(1))
    next
      case False
      obtain brk st' where b: "loop_body sp st = (brk, st')"
        by (cases "loop_body sp st")
      show ?thesis
      proof (cases brk)
        case True
        with b sp have "loop_body seps st = (True, st')" by simp
        with False show ?thesis by (rule assms(2))
      next
        case nb: False
        with b sp have b': "loop_body seps st = (False, st')" by simp
        from "1.IH" [OF False b [symmetric] nb sp] show ?thesis
          by (rule assms(3) [OF False b'])
      qed
    qed
  qed
  then show ?thesis by simp
qed

lemma gettok_loop_frame:
  "length (buf (gettok_loop seps st)) = length (buf st)
   \<and> ptr_p st \<le> ptr_p (gettok_loop seps st)
   \<and> (rd (buf st) (ptr_p st) \<noteq> 0 \<longrightarrow> ptr_p st < ptr_p (gettok_loop seps st))"
proof (induction st rule: gettok_loop_cases [where seps = seps])
  case (stop st)
  then show ?case by (simp add: gettok_loop_stop)
next
  case (break st st')
  then show ?case by (simp add: gettok_loop_break loop_body_break)
next
  case (step st st')
  then show ?case by (simp add: gettok_loop_step loop_body_keeps)
qed

lemma gettok_finish_frame:
  "length (buf_out (gettok_finish t st)) = length (buf st)"
  "s_out (gettok_finish t st) = ptr_p st"
  "rv (gettok_finish t st) = 0 \<longleftrightarrow> tok_out (gettok_finish t st) \<noteq> Unset"
  "tok_out (gettok_finish t st) \<noteq> SetNull"
  by (simp_all add: gettok_finish_def put_def Let_def)

lemma gettok_frame:
  "length (buf_out (gettok b s seps)) = length b"
  "s \<le> s_out (gettok b s seps)"
  "rv (gettok b s seps) = 0 \<longleftrightarrow> tok_out (gettok b s seps) \<noteq> Unset"
  "tok_out (gettok b s seps) = SetTok t \<Longrightarrow> s < s_out (gettok b s seps) \<and> s < length b"
proof -
  let ?t = "skip_spaces b s seps"
  let ?st = "\<lparr>ptr_p = ?t, ptr_o = ?t, inquote = 0, escape = 0, base = 8, cval = 0, buf = b\<rparr>"
  note fr = gettok_loop_frame [of seps ?st]
  show "length (buf_out (gettok b s seps)) = length b"
    using fr by (simp add: gettok_def Let_def gettok_finish_frame)
  show "s \<le> s_out (gettok b s seps)"
    using fr skip_spaces_ge [of s b seps] by (simp add: gettok_def Let_def gettok_finish_frame)
  show "rv (gettok b s seps) = 0 \<longleftrightarrow> tok_out (gettok b s seps) \<noteq> Unset"
    by (simp add: gettok_def Let_def gettok_finish_frame)
  show "s < s_out (gettok b s seps) \<and> s < length b" if "tok_out (gettok b s seps) = SetTok t"
  proof -
    from that have nz: "rd b ?t \<noteq> 0"
      by (auto simp: gettok_def Let_def split: if_splits)
    then have "?t < length b"
      by (simp add: rd_def split: if_splits)
    with nz fr skip_spaces_ge [of s b seps] show ?thesis
      by (simp add: gettok_def Let_def gettok_finish_frame)
  qed
qed

section \<open>The loop of str\_to\_argv\<close>

lemma chars_set_chars: "length (chars (set_chars a b h) a) = (if a \<in> fst ` set (strs h) then length b else 0)"
proof -
  have "map_of (map (\<lambda>kv. if fst kv = a then (a, b) else kv) l) a
        = (if a \<in> fst ` set l then Some b else None)" for l :: "(nat \<times> byte list) list"
    by (induction l) auto
  then show ?thesis
    by (simp add: chars_def set_chars_def)
qed

lemma chars_absent: "a \<notin> fst ` set (strs h) \<Longrightarrow> chars h a = []"
  by (simp add: chars_def map_of_eq_None_iff [THEN iffD2])

lemma chars_cong: "strs h' = strs h \<Longrightarrow> chars h' a = chars h a"
  by (simp add: chars_def)

lemma strs_realloc_ptrs: "strs (snd (realloc_ptrs a n h)) = strs h"
  by (simp add: realloc_ptrs_def next_fails_def free_ptrs_def Let_def split: list.splits bool.splits)

lemma strs_set_ptr: "strs (set_ptr a i v h) = strs h"
  by (simp add: set_ptr_def)

lemma grow_argv_frame:
  assumes "grow_argv st = (j, st1)"
  shows "strs (mem st1) = strs (mem st)" and "s_ptr st1 = s_ptr st" and "tok st1 = tok st"
    and "argc st1 = argc st"
  using assms strs_realloc_ptrs [of "argv st" "args st + 10" "mem st"]
  by (auto simp: grow_argv_def split: if_splits prod.splits option.splits)

text \<open>
  What is left to do for the loop: the unread part of the buffer, counted twice, and one
  more while the loop condition holds.
\<close>

definition loop_left :: "nat \<Rightarrow> sta \<Rightarrow> nat" where
  "loop_left orig_s st =
     2 * (length (chars (mem st) orig_s) - s_ptr st)
     + (if tok st \<noteq> Null \<and> err st = 0 then 1 else 0)"

lemma while_body_left:
  assumes g: "tok st \<noteq> Null \<and> err st = 0"
    and wb: "while_body seps orig_s st = (False, st')"
  shows "loop_left orig_s st' < loop_left orig_s st"
proof -
  define b where "b = chars (mem st) orig_s"
  define r where "r = gettok b (s_ptr st) seps"
  from wb obtain st1 where gr: "grow_argv st = (False, st1)"
    and st': "st' = call_gettok seps orig_s
                 (st1\<lparr>mem := set_ptr (argv st1) (argc st1) (tok st1) (mem st1), argc := argc st1 + 1\<rparr>)"
    by (auto simp: while_body_def split: prod.splits bool.splits)
  note st1 = grow_argv_frame [OF gr]
  have cb: "chars (set_ptr (argv st1) (argc st1) (tok st1) (mem st1)) orig_s = b"
    using st1 by (simp add: b_def chars_def strs_set_ptr)
  have s': "s_ptr st' = s_out r" and e': "err st' = rv r"
    and t': "tok st' = (case tok_out r of Unset \<Rightarrow> tok st | SetNull \<Rightarrow> Null | SetTok t \<Rightarrow> Ref orig_s t)"
    using st1 cb by (simp_all add: st' call_gettok_def Let_def r_def split: tokout.splits)
  have len: "length (chars (mem st') orig_s) = length b"
    using cb gettok_frame(1) [of b "s_ptr st" seps]
    by (auto simp: st' call_gettok_def Let_def chars_set_chars strs_set_ptr st1 b_def
        chars_absent)
  have ge: "s_ptr st \<le> s_out r"
    unfolding r_def by (rule gettok_frame(2))
  have "2 * (length b - s_out r) + (if tok st' \<noteq> Null \<and> err st' = 0 then 1 else 0)
        < 2 * (length b - s_ptr st) + 1"
  proof (cases "tok st' \<noteq> Null \<and> err st' = 0")
    case True
    with e' t' gettok_frame(3) [of b "s_ptr st" seps] obtain t where "tok_out r = SetTok t"
      by (cases "tok_out r") (auto simp: r_def)
    from gettok_frame(4) [OF this [unfolded r_def]] show ?thesis
      by (auto simp: r_def)
  next
    case False
    with ge show ?thesis by auto
  qed
  with g show ?thesis
    by (simp add: loop_left_def len s' b_def)
qed

function str_to_argv_loop :: "byte list \<Rightarrow> nat \<Rightarrow> sta \<Rightarrow> bool \<times> sta" where
  "str_to_argv_loop seps orig_s st =
     (if tok st \<noteq> Null \<and> err st = 0 then
        (case while_body seps orig_s st of
           (jump, st') \<Rightarrow> if jump then (True, st') else str_to_argv_loop seps orig_s st')
      else (False, st))"
  by pat_completeness auto
termination
proof (relation "measure (\<lambda>(seps, orig_s, st). loop_left orig_s st)")
  show "wf (measure (\<lambda>(seps, orig_s, st). loop_left orig_s st))"
    by simp
next
  fix seps :: "byte list" and orig_s :: nat and st st' :: sta and j :: bool
  assume g: "tok st \<noteq> Null \<and> err st = 0"
    and wb: "(j, st') = while_body seps orig_s st" and nj: "\<not> j"
  then have "while_body seps orig_s st = (False, st')"
    by simp
  from while_body_left [OF g this]
  show "((seps, orig_s, st'), (seps, orig_s, st)) \<in> measure (\<lambda>(seps, orig_s, st). loop_left orig_s st)"
    by simp
qed

declare str_to_argv_loop.simps [simp del]

text \<open>
  What a call leaves behind: the returned code, the allocator's state, and the caller's
  \<open>*r_argc\<close> and \<open>*r_argv\<close>.
\<close>

record sta_result =
  ret :: int
  mem_out :: heap
  argc_out :: int
  argv_out :: "nat option"

text \<open>
  \<open>r_argc\<close> and \<open>r_argv\<close> are what the caller's two variables hold before the call;
  \<open>seps\<close> is \<open>None\<close> for a NULL pointer.
\<close>

definition str_to_argv ::
  "byte list \<Rightarrow> int \<Rightarrow> nat option \<Rightarrow> byte list option \<Rightarrow> heap \<Rightarrow> sta_result" where
  "str_to_argv ins r_argc r_argv seps h =
     (case strdup ins h of
        (None, h1) \<Rightarrow> \<lparr>ret = ENOMEM, mem_out = h1, argc_out = r_argc, argv_out = r_argv\<rparr>
      | (Some orig_s, h1) \<Rightarrow>
          (let seps' = (case seps of None \<Rightarrow> default_seps | Some x \<Rightarrow> x)
           in case malloc_ptrs 10 h1 of
                (None, h2) \<Rightarrow>
                  \<lparr>ret = ENOMEM, mem_out = free_chars orig_s h2,
                   argc_out = r_argc, argv_out = r_argv\<rparr>
              | (Some a, h2) \<Rightarrow>
                  (let st0 = call_gettok seps' orig_s
                               \<lparr>mem = h2, s_ptr = 0, argv = a, tok = Uninit,
                                argc = 0, args = 10, err = 0\<rparr>;
                       (jump, st1) = str_to_argv_loop seps' orig_s st0;
                       st2 = (if jump then st1
                              else st1\<lparr>mem := set_ptr (argv st1) (argc st1 + 1) (Ref orig_s 0)
                                              (set_ptr (argv st1) (argc st1) Null (mem st1))\<rparr>)
                   in if err st2 \<noteq> 0
                      then \<lparr>ret = err st2,
                            mem_out = free_ptrs (argv st2) (free_chars orig_s (mem st2)),
                            argc_out = r_argc, argv_out = r_argv\<rparr>
                      else \<lparr>ret = 0, mem_out = mem st2,
                            argc_out = int (argc st2), argv_out = Some (argv st2)\<rparr>)))"

text \<open>
  The strings the caller finds in \<open>argv[0] .. argv[argc - 1]\<close> after a call: each is
  the C string at the cell's pointer.
\<close>

definition string_at :: "heap \<Rightarrow> ptr \<Rightarrow> byte list" where
  "string_at h q = (case q of Ref a off \<Rightarrow> cstring (drop off (chars h a)) | _ \<Rightarrow> [])"

definition tokens :: "sta_result \<Rightarrow> byte list list" where
  "tokens r =
     (case argv_out r of
        None \<Rightarrow> []
      | Some a \<Rightarrow> map (string_at (mem_out r)) (take (nat (argc_out r)) (ptrs (mem_out r) a)))"

text \<open>A heap with nothing allocated and no allocation failure to come.\<close>

definition empty_heap :: heap where
  "empty_heap = \<lparr>strs = [], arrs = [], fails = []\<rparr>"

section \<open>The branches of the loop body and what every pass maintains\<close>

lemma process_char_cases [consumes 1, case_names unquote quote backslash separator copy]:
  assumes "process_char seps st = (brk, st')"
  obtains
    "rd (buf st) (ptr_p st) = inquote st" "\<not> brk" "st' = st\<lparr>inquote := 0\<rparr>"
  | "rd (buf st) (ptr_p st) \<noteq> inquote st" "inquote st = 0"
    "rd (buf st) (ptr_p st) = 0x27 \<or> rd (buf st) (ptr_p st) = 0x22"
    "\<not> brk" "st' = st\<lparr>inquote := rd (buf st) (ptr_p st)\<rparr>"
  | "rd (buf st) (ptr_p st) \<noteq> inquote st" "rd (buf st) (ptr_p st) = 0x5C"
    "\<not> brk" "st' = st\<lparr>escape := 1\<rparr>"
  | "rd (buf st) (ptr_p st) \<noteq> inquote st" "inquote st = 0"
    "rd (buf st) (ptr_p st) \<noteq> 0x27" "rd (buf st) (ptr_p st) \<noteq> 0x22"
    "rd (buf st) (ptr_p st) \<noteq> 0x5C"
    "is_sep_space (rd (buf st) (ptr_p st)) seps" "brk" "st' = st\<lparr>ptr_p := ptr_p st + 1\<rparr>"
  | "rd (buf st) (ptr_p st) \<noteq> inquote st"
    "inquote st = 0 \<longrightarrow> rd (buf st) (ptr_p st) \<noteq> 0x27 \<and> rd (buf st) (ptr_p st) \<noteq> 0x22"
    "rd (buf st) (ptr_p st) \<noteq> 0x5C"
    "inquote st = 0 \<longrightarrow> \<not> is_sep_space (rd (buf st) (ptr_p st)) seps"
    "\<not> brk" "st' = put (rd (buf st) (ptr_p st)) st"
  using assms unfolding process_char_def Let_def
  by (auto split: if_splits)

lemma loop_body_cases [consumes 1, case_names first_octal hex_intro single more_digits last_digit interrupted plain]:
  assumes "loop_body seps st = (brk, st')"
  obtains
    "escape st = 1" "isodigit (rd (buf st) (ptr_p st))" "\<not> brk"
    "st' = st\<lparr>cval := rd (buf st) (ptr_p st) - 0x30, base := 8, escape := 2\<rparr>"
  | "escape st = 1" "\<not> isodigit (rd (buf st) (ptr_p st))" "rd (buf st) (ptr_p st) = 0x78" "\<not> brk"
    "st' = st\<lparr>cval := 0, base := 16, escape := 2\<rparr>"
  | "escape st = 1" "\<not> isodigit (rd (buf st) (ptr_p st))" "rd (buf st) (ptr_p st) \<noteq> 0x78" "\<not> brk"
    "st' = (put (named_escape (rd (buf st) (ptr_p st))) (st\<lparr>cval := 0\<rparr>))\<lparr>escape := 0\<rparr>"
  | "escape st = 2"
    "(base st = 16 \<and> isxdigit (rd (buf st) (ptr_p st))) \<or> isodigit (rd (buf st) (ptr_p st))"
    "\<not> brk"
    "st' = st\<lparr>cval := accumulate (cval st) (base st) (rd (buf st) (ptr_p st)), escape := 3\<rparr>"
  | "escape st \<ge> 3"
    "(base st = 16 \<and> isxdigit (rd (buf st) (ptr_p st))) \<or> isodigit (rd (buf st) (ptr_p st))"
    "\<not> brk"
    "st' = (put (accumulate (cval st) (base st) (rd (buf st) (ptr_p st)))
              (st\<lparr>cval := accumulate (cval st) (base st) (rd (buf st) (ptr_p st))\<rparr>))\<lparr>escape := 0\<rparr>"
  | "escape st \<ge> 2"
    "\<not> ((base st = 16 \<and> isxdigit (rd (buf st) (ptr_p st))) \<or> isodigit (rd (buf st) (ptr_p st)))"
    "process_char seps ((put (cval st) st)\<lparr>escape := 0\<rparr>) = (brk, st')"
  | "escape st = 0" "process_char seps st = (brk, st')"
proof (cases "escape st = 0")
  case True
  with assms that(7) show ?thesis by (auto simp: loop_body_def)
next
  case nz: False
  show ?thesis
  proof (cases "escape st = 1")
    case True
    with assms that(1,2,3) show ?thesis
      by (auto simp: loop_body_def Let_def split: if_splits)
  next
    case False
    with nz have ge: "escape st \<ge> 2" by simp
    show ?thesis
    proof (cases "(base st = 16 \<and> isxdigit (rd (buf st) (ptr_p st))) \<or> isodigit (rd (buf st) (ptr_p st))")
      case dig: True
      show ?thesis
      proof (cases "escape st \<ge> 3")
        case True
        with assms dig that(5) nz False show ?thesis
          by (auto simp: loop_body_def Let_def)
      next
        case False
        with ge have "escape st = 2" by simp
        with assms dig that(4) show ?thesis
          by (auto simp: loop_body_def Let_def)
      qed
    next
      case False
      with assms ge nz \<open>escape st \<noteq> 1\<close> that(6) show ?thesis
        by (auto simp: loop_body_def Let_def)
    qed
  qed
qed


text \<open>
  What holds of the local variables at the head of every pass of the loop: the write
  cursor trails the read cursor by at least the characters the pending escape has
  consumed, \<open>escape\<close> is at most 3, \<open>base\<close> is 8 or 16 while digits are collected, and
  \<open>inquote\<close> is NUL or one of the two quote characters.
\<close>

definition scan_inv :: "gt \<Rightarrow> bool" where
  "scan_inv st \<longleftrightarrow>
     ptr_o st + escape st \<le> ptr_p st \<and> escape st \<le> 3
     \<and> (escape st \<ge> 2 \<longrightarrow> base st = 8 \<or> base st = 16)
     \<and> (inquote st = 0 \<or> inquote st = 0x27 \<or> inquote st = 0x22)"

lemma scan_inv_init:
  "scan_inv \<lparr>ptr_p = t, ptr_o = t, inquote = 0, escape = 0, base = 8, cval = 0, buf = b\<rparr>"
  by (simp add: scan_inv_def)

lemma scan_inv_process_char:
  assumes "process_char seps st = (brk, st')" and "escape st = 0"
    and "ptr_o st < ptr_p st + 1" 
    and "inquote st = 0 \<or> inquote st = 0x27 \<or> inquote st = 0x22"
  shows "ptr_o st' + escape st' \<le> ptr_p st + 1" and "escape st' \<le> 1"
    and "inquote st' = 0 \<or> inquote st' = 0x27 \<or> inquote st' = 0x22"
    and "brk \<Longrightarrow> escape st' = 0 \<and> inquote st' = 0 \<and> ptr_o st' < ptr_p st'"
    and "\<not> brk \<Longrightarrow> ptr_p st' = ptr_p st"
  using assms(1)
  by (cases rule: process_char_cases; use assms(2-) in \<open>auto simp: put_def\<close>)+

lemma scan_inv_step:
  assumes "scan_inv st" and "loop_body seps st = (False, st')"
  shows "scan_inv (st'\<lparr>ptr_p := ptr_p st' + 1\<rparr>)"
  using assms(2)
proof (cases rule: loop_body_cases)
  case interrupted
  from scan_inv_process_char [OF interrupted(3)] assms(1) interrupted(1) show ?thesis
    by (simp add: scan_inv_def put_def)
next
  case plain
  from scan_inv_process_char [OF plain(2)] assms(1) plain(1) show ?thesis
    by (simp add: scan_inv_def)
qed (use assms(1) in \<open>auto simp: scan_inv_def put_def\<close>)

lemma scan_inv_break:
  assumes "scan_inv st" and "loop_body seps st = (True, st')"
  shows "scan_inv st'" and "escape st' = 0" and "inquote st' = 0" and "ptr_o st' < ptr_p st'"
proof -
  have "scan_inv st' \<and> escape st' = 0 \<and> inquote st' = 0 \<and> ptr_o st' < ptr_p st'"
    using assms(2)
  proof (cases rule: loop_body_cases)
    case interrupted
    from scan_inv_process_char(4) [OF interrupted(3)] assms(1) interrupted(1) show ?thesis
      by (simp add: scan_inv_def put_def)
  next
    case plain
    from scan_inv_process_char(4) [OF plain(2)] assms(1) plain(1) show ?thesis
      by (simp add: scan_inv_def)
  qed simp_all
  then show "scan_inv st'" and "escape st' = 0" and "inquote st' = 0" and "ptr_o st' < ptr_p st'"
    by simp_all
qed

lemma scan_inv_gettok_loop: "scan_inv st \<Longrightarrow> scan_inv (gettok_loop seps st)"
proof (induction st rule: gettok_loop_cases [where seps = seps])
  case (stop st)
  then show ?case by (simp add: gettok_loop_stop)
next
  case (break st st')
  then show ?case by (simp add: gettok_loop_break scan_inv_break)
next
  case (step st st')
  from step(4) step(2) have "scan_inv (st'\<lparr>ptr_p := ptr_p st' + 1\<rparr>)"
    by (rule scan_inv_step)
  with step show ?case by (simp add: gettok_loop_step)
qed

text \<open>Below the write cursor the buffer does not change any more.\<close>

lemma process_char_below:
  assumes "process_char seps st = (brk, st')"
  shows "ptr_o st \<le> ptr_o st'" and "i < ptr_o st \<Longrightarrow> buf st' ! i = buf st ! i"
  using assms
  by (cases rule: process_char_cases; simp add: put_def)+

lemma loop_body_below:
  assumes "loop_body seps st = (brk, st')"
  shows "ptr_o st \<le> ptr_o st'" and "i < ptr_o st \<Longrightarrow> buf st' ! i = buf st ! i"
proof -
  have "ptr_o st \<le> ptr_o st' \<and> (i < ptr_o st \<longrightarrow> buf st' ! i = buf st ! i)"
    using assms
  proof (cases rule: loop_body_cases)
    case interrupted
    from process_char_below [OF interrupted(3)] show ?thesis
      by (auto simp: put_def)
  next
    case plain
    from process_char_below [OF plain(2)] show ?thesis
      by simp
  qed (simp_all add: put_def)
  then show "ptr_o st \<le> ptr_o st'" and "i < ptr_o st \<Longrightarrow> buf st' ! i = buf st ! i"
    by simp_all
qed

lemma gettok_loop_below:
  "ptr_o st \<le> ptr_o (gettok_loop seps st)
   \<and> (\<forall>i < ptr_o st. buf (gettok_loop seps st) ! i = buf st ! i)"
proof (induction st rule: gettok_loop_cases [where seps = seps])
  case (stop st)
  then show ?case by (simp add: gettok_loop_stop)
next
  case (break st st')
  then show ?case using loop_body_below [of seps st True st'] by (simp add: gettok_loop_break)
next
  case (step st st')
  then show ?case using loop_body_below [of seps st False st'] by (simp add: gettok_loop_step)
qed

lemma gettok_finish_below:
  "i < ptr_o st \<Longrightarrow> buf_out (gettok_finish t st) ! i = buf st ! i"
  by (simp add: gettok_finish_def put_def Let_def)

section \<open>Reading after a write, and how the loop goes on and ends\<close>

lemma rd_update_other: "i \<noteq> j \<Longrightarrow> rd (b[i := v]) j = rd b j"
  by (simp add: rd_def)

lemma rd_update_same: "i < length b \<Longrightarrow> rd (b[i := v]) i = v"
  by (simp add: rd_def)

lemma rd_nonzero_in_range: "rd b i \<noteq> 0 \<Longrightarrow> i < length b"
  by (simp add: rd_def split: if_splits)

lemma loop_body_plain: "escape st = 0 \<Longrightarrow> loop_body seps st = process_char seps st"
  by (simp add: loop_body_def)

lemma loop_body_interrupted:
  "2 \<le> escape st \<Longrightarrow>
   \<not> ((base st = 16 \<and> isxdigit (rd (buf st) (ptr_p st))) \<or> isodigit (rd (buf st) (ptr_p st))) \<Longrightarrow>
   loop_body seps st = process_char seps ((put (cval st) st)\<lparr>escape := 0\<rparr>)"
  by (auto simp: loop_body_def Let_def)

lemma isodigit_isxdigit: "isodigit c \<Longrightarrow> isxdigit c"
  by (simp add: isodigit_def isxdigit_def)

lemma gettok_loop_restart:
  assumes "rd (buf st) (ptr_p st) \<noteq> 0" and "loop_body seps st = loop_body seps st'"
    and "rd (buf st') (ptr_p st') \<noteq> 0"
  shows "gettok_loop seps st = gettok_loop seps st'"
  using assms by (subst (1 2) gettok_loop.simps) simp


lemma gettok_loop_interrupted:
  assumes "scan_inv st" and "2 \<le> escape st"
    and "rd (buf st) (ptr_p st) \<noteq> 0"
    and "(base st = 8 \<and> \<not> isodigit (rd (buf st) (ptr_p st)))
         \<or> (base st = 16 \<and> \<not> isxdigit (rd (buf st) (ptr_p st)))"
  shows "rd (buf (st\<lparr>buf := (buf st)[ptr_o st := cval st], ptr_o := ptr_o st + 1, escape := 0\<rparr>))
            (ptr_p st) = rd (buf st) (ptr_p st)"
    and "loop_body seps st
             = process_char seps
                 (st\<lparr>buf := (buf st)[ptr_o st := cval st], ptr_o := ptr_o st + 1, escape := 0\<rparr>)"
    and "gettok_loop seps st
             = gettok_loop seps
                 (st\<lparr>buf := (buf st)[ptr_o st := cval st], ptr_o := ptr_o st + 1, escape := 0\<rparr>)"
proof -
  let ?st' = "st\<lparr>buf := (buf st)[ptr_o st := cval st], ptr_o := ptr_o st + 1, escape := 0\<rparr>"
  have st': "?st' = (put (cval st) st)\<lparr>escape := 0\<rparr>"
    by (simp add: put_def)
  from assms(1,2) have "ptr_o st \<noteq> ptr_p st"
    by (simp add: scan_inv_def)
  then show same: "rd (buf ?st') (ptr_p st) = rd (buf st) (ptr_p st)"
    by (simp add: rd_update_other)
  from assms(4) have "\<not> ((base st = 16 \<and> isxdigit (rd (buf st) (ptr_p st)))
                          \<or> isodigit (rd (buf st) (ptr_p st)))"
    by (auto dest: isodigit_isxdigit)
  with assms(2) show body: "loop_body seps st = process_char seps ?st'"
    unfolding st' by (rule loop_body_interrupted)
  have "loop_body seps ?st' = process_char seps ?st'"
    by (simp add: loop_body_plain)
  with body have "loop_body seps st = loop_body seps ?st'"
    by simp
  with assms(3) same show "gettok_loop seps st = gettok_loop seps ?st'"
    by (intro gettok_loop_restart) simp_all
qed

lemma gettok_loop_exit:
  assumes "scan_inv st"
  shows "rd (buf (gettok_loop seps st)) (ptr_p (gettok_loop seps st)) = 0
         \<or> (escape (gettok_loop seps st) = 0 \<and> inquote (gettok_loop seps st) = 0)"
  using assms
proof (induction st rule: gettok_loop_cases [where seps = seps])
  case (stop st)
  then show ?case by (simp add: gettok_loop_stop)
next
  case (break st st')
  then show ?case by (simp add: gettok_loop_break scan_inv_break)
next
  case (step st st')
  from step(4) step(2) have "scan_inv (st'\<lparr>ptr_p := ptr_p st' + 1\<rparr>)"
    by (rule scan_inv_step)
  with step show ?case by (simp add: gettok_loop_step)
qed

section \<open>The blocks a call holds\<close>

lemma foldr_max_ge: "k \<in> set ks \<Longrightarrow> k \<le> foldr max ks (0::nat)"
  by (induction ks) (auto simp: max_def)

lemma fresh_notin: "fresh h \<notin> fst ` set (strs h)" "fresh h \<notin> fst ` set (arrs h)"
proof -
  have "k < fresh h" if "k \<in> fst ` set (strs h) \<union> fst ` set (arrs h)" for k
  proof -
    from that have "k \<in> set (map fst (strs h) @ map fst (arrs h))"
      by auto
    from foldr_max_ge [OF this] show ?thesis
      by (simp add: fresh_def)
  qed
  then show "fresh h \<notin> fst ` set (strs h)" "fresh h \<notin> fst ` set (arrs h)"
    by blast+
qed

lemma map_absent_key: "a \<notin> fst ` set l \<Longrightarrow> map (\<lambda>kv. if fst kv = a then f kv else kv) l = l"
  by (induction l) auto

lemma filter_absent_key: "a \<notin> fst ` set l \<Longrightarrow> filter (\<lambda>kv. fst kv \<noteq> a) l = l"
  by (induction l) auto

text \<open>
  What \<open>str_to_argv\<close> holds from its two allocations to its end: on top of the blocks
  \<open>h0\<close> had when it was called, the buffer at \<open>orig_s\<close> and the array at \<open>argv\<close>,
  at addresses \<open>h0\<close> did not use.
\<close>

definition owned :: "heap \<Rightarrow> nat \<Rightarrow> sta \<Rightarrow> bool" where
  "owned h0 orig_s st \<longleftrightarrow>
     (\<exists>b c. strs (mem st) = (orig_s, b) # strs h0 \<and> arrs (mem st) = (argv st, c) # arrs h0)
     \<and> orig_s \<notin> fst ` set (strs h0) \<and> argv st \<notin> fst ` set (arrs h0)"

lemma next_fails_frame:
  "strs (snd (next_fails h)) = strs h" "arrs (snd (next_fails h)) = arrs h"
  "fresh (snd (next_fails h)) = fresh h"
  by (simp_all add: next_fails_def fresh_def split: list.splits)

lemma owned_call_gettok:
  assumes "owned h0 orig_s st"
  shows "owned h0 orig_s (call_gettok seps orig_s st)"
  using assms
  by (auto simp: owned_def call_gettok_def Let_def set_chars_def map_absent_key)

lemma owned_set_ptr:
  assumes "owned h0 orig_s st"
  shows "owned h0 orig_s (st\<lparr>mem := set_ptr (argv st) i v (mem st)\<rparr>)"
  using assms
  by (auto simp: owned_def set_ptr_def map_absent_key)

lemma owned_argc: "owned h0 orig_s (st\<lparr>argc := n\<rparr>) = owned h0 orig_s st"
  by (simp add: owned_def)

lemma owned_grow_argv:
  assumes "owned h0 orig_s st" and "grow_argv st = (j, st')"
  shows "owned h0 orig_s st'"
proof (cases "argc st \<ge> args st - 2")
  case False
  with assms show ?thesis by (simp add: grow_argv_def)
next
  case True
  obtain f h' where nf: "next_fails (mem st) = (f, h')"
    by (cases "next_fails (mem st)")
  with next_fails_frame [of "mem st"] have fr: "strs h' = strs (mem st)" "arrs h' = arrs (mem st)"
    by simp_all
  show ?thesis
  proof (cases f)
    case True
    with assms(2) \<open>argc st \<ge> args st - 2\<close> nf have "st' = st\<lparr>mem := h', err := ENOMEM\<rparr>"
      by (simp add: grow_argv_def realloc_ptrs_def)
    with assms(1) fr show ?thesis
      by (simp add: owned_def)
  next
    case False
    let ?h1 = "free_ptrs (argv st) h'"
    from assms(1) fr have a: "arrs ?h1 = arrs h0" and s: "strs ?h1 = strs (mem st)"
      by (auto simp: owned_def free_ptrs_def filter_absent_key)
    from fresh_notin(2) [of ?h1] a have nin: "fresh ?h1 \<notin> fst ` set (arrs h0)"
      by simp
    from assms(2) \<open>argc st \<ge> args st - 2\<close> nf False
    have "st' = st\<lparr>mem := ?h1\<lparr>arrs := (fresh ?h1, take (args st + 10) (ptrs h' (argv st))
                        @ replicate (args st + 10 - length (ptrs h' (argv st))) Uninit) # arrs ?h1\<rparr>,
                    argv := fresh ?h1, args := args st + 10\<rparr>"
      by (simp add: grow_argv_def realloc_ptrs_def Let_def)
    with assms(1) a s nin show ?thesis
      by (simp add: owned_def)
  qed
qed

lemma owned_while_body:
  assumes "owned h0 orig_s st" and "while_body seps orig_s st = (j, st')"
  shows "owned h0 orig_s st'"
proof -
  obtain j1 st1 where g: "grow_argv st = (j1, st1)"
    by (cases "grow_argv st")
  from owned_grow_argv [OF assms(1) g] have o1: "owned h0 orig_s st1" .
  show ?thesis
  proof (cases j1)
    case True
    with assms(2) g o1 show ?thesis by (simp add: while_body_def)
  next
    case False
    from owned_set_ptr [OF o1, of "argc st1" "tok st1"]
    have "owned h0 orig_s (st1\<lparr>mem := set_ptr (argv st1) (argc st1) (tok st1) (mem st1),
                   argc := argc st1 + 1\<rparr>)"
      by (simp add: owned_def)
    from owned_call_gettok [OF this, of seps] False assms(2) g show ?thesis
      by (simp add: while_body_def)
  qed
qed

lemma str_to_argv_loop_cases [consumes 0, case_names finished jump again]:
  assumes "\<And>st. \<not> (tok st \<noteq> Null \<and> err st = 0) \<Longrightarrow> P st"
    and "\<And>st st'. tok st \<noteq> Null \<Longrightarrow> err st = 0 \<Longrightarrow> while_body seps orig_s st = (True, st') \<Longrightarrow> P st"
    and "\<And>st st'. tok st \<noteq> Null \<Longrightarrow> err st = 0 \<Longrightarrow> while_body seps orig_s st = (False, st') \<Longrightarrow>
           P st' \<Longrightarrow> P st"
  shows "P st"
proof -
  have "sp = seps \<Longrightarrow> a = orig_s \<Longrightarrow> P st" for sp a
  proof (induction sp a st rule: str_to_argv_loop.induct)
    case (1 sp a st)
    show ?case
    proof (cases "tok st \<noteq> Null \<and> err st = 0")
      case False
      then show ?thesis by (rule assms(1))
    next
      case True
      obtain j st' where b: "while_body sp a st = (j, st')"
        by (cases "while_body sp a st")
      show ?thesis
      proof (cases j)
        case True
        with b 1(2,3) have "while_body seps orig_s st = (True, st')" by simp
        with \<open>tok st \<noteq> Null \<and> err st = 0\<close> show ?thesis by (auto intro: assms(2))
      next
        case nj: False
        with b 1(2,3) have b': "while_body seps orig_s st = (False, st')" by simp
        from "1.IH" [OF True b [symmetric] nj 1(2,3)] True show ?thesis
          by (auto intro: assms(3) [OF _ _ b'])
      qed
    qed
  qed
  then show ?thesis by simp
qed

lemma str_to_argv_loop_done:
  "\<not> (tok st \<noteq> Null \<and> err st = 0) \<Longrightarrow> str_to_argv_loop seps orig_s st = (False, st)"
  by (subst str_to_argv_loop.simps) auto

lemma str_to_argv_loop_jump:
  "tok st \<noteq> Null \<Longrightarrow> err st = 0 \<Longrightarrow> while_body seps orig_s st = (True, st') \<Longrightarrow>
   str_to_argv_loop seps orig_s st = (True, st')"
  by (subst str_to_argv_loop.simps) simp

lemma str_to_argv_loop_again:
  "tok st \<noteq> Null \<Longrightarrow> err st = 0 \<Longrightarrow> while_body seps orig_s st = (False, st') \<Longrightarrow>
   str_to_argv_loop seps orig_s st = str_to_argv_loop seps orig_s st'"
  by (subst str_to_argv_loop.simps) simp

lemma owned_str_to_argv_loop:
  "owned h0 orig_s st \<Longrightarrow> owned h0 orig_s (snd (str_to_argv_loop seps orig_s st))"
proof (induction st rule: str_to_argv_loop_cases [where seps = seps and orig_s = orig_s])
  case (finished st)
  then show ?case by (simp add: str_to_argv_loop_done)
next
  case (jump st st')
  then show ?case by (simp add: str_to_argv_loop_jump owned_while_body)
next
  case (again st st')
  from again(5) again(3) have "owned h0 orig_s st'" by (rule owned_while_body)
  with again show ?case by (simp add: str_to_argv_loop_again)
qed

text \<open>The codes \<open>err\<close> can hold.\<close>

lemma gettok_rv: "rv (gettok b s seps) = 0 \<or> rv (gettok b s seps) = - 1"
  by (simp add: gettok_def gettok_finish_def Let_def)

definition err_ok :: "sta \<Rightarrow> bool" where
  "err_ok st \<longleftrightarrow> err st = 0 \<or> err st = - 1 \<or> err st = ENOMEM"

lemma grow_argv_err:
  assumes "grow_argv st = (j, st1)"
  shows "err st1 = (if j then ENOMEM else err st)"
  using assms
  by (auto simp: grow_argv_def split: if_splits prod.splits option.splits)

lemma err_call_gettok: "err (call_gettok seps orig_s st) = 0 \<or> err (call_gettok seps orig_s st) = - 1"
  using gettok_rv by (simp add: call_gettok_def Let_def)

lemma err_ok_while_body:
  assumes "while_body seps orig_s st = (j, st')" and "err_ok st"
  shows "err_ok st'"
proof -
  obtain j1 st1 where g: "grow_argv st = (j1, st1)"
    by (cases "grow_argv st")
  show ?thesis
  proof (cases j1)
    case True
    with assms(1) g grow_argv_err [OF g] show ?thesis
      by (simp add: while_body_def err_ok_def)
  next
    case False
    with assms(1) g have "st' = call_gettok seps orig_s
             (st1\<lparr>mem := set_ptr (argv st1) (argc st1) (tok st1) (mem st1),
                   argc := argc st1 + 1\<rparr>)"
      by (simp add: while_body_def)
    with err_call_gettok show ?thesis
      by (auto simp: err_ok_def)
  qed
qed

lemma err_ok_str_to_argv_loop:
  "err_ok st \<Longrightarrow> err_ok (snd (str_to_argv_loop seps orig_s st))"
proof (induction st rule: str_to_argv_loop_cases [where seps = seps and orig_s = orig_s])
  case (finished st)
  then show ?case by (simp add: str_to_argv_loop_done)
next
  case (jump st st')
  then show ?case by (simp add: str_to_argv_loop_jump err_ok_while_body)
next
  case (again st st')
  from again(3) again(5) have "err_ok st'" by (rule err_ok_while_body)
  with again show ?case by (simp add: str_to_argv_loop_again)
qed


lemma strdup_cases:
  obtains h1 where "strdup ins h = (None, h1)" "strs h1 = strs h" "arrs h1 = arrs h"
  | a h1 where "strdup ins h = (Some a, h1)" "strs h1 = (a, cstring ins @ [0]) # strs h"
      "arrs h1 = arrs h" "a \<notin> fst ` set (strs h)"
proof -
  obtain f h' where nf: "next_fails h = (f, h')"
    by (cases "next_fails h")
  with next_fails_frame [of h] have fr: "strs h' = strs h" "arrs h' = arrs h"
    by simp_all
  show ?thesis
  proof (cases f)
    case True
    with nf fr that(1) show ?thesis by (simp add: strdup_def)
  next
    case False
    from fresh_notin(1) [of h'] fr have "fresh h' \<notin> fst ` set (strs h)" by simp
    with False nf fr that(2) [of "fresh h'" "h'\<lparr>strs := (fresh h', cstring ins @ [0]) # strs h'\<rparr>"]
    show ?thesis by (simp add: strdup_def)
  qed
qed

lemma malloc_ptrs_cases:
  obtains h1 where "malloc_ptrs n h = (None, h1)" "strs h1 = strs h" "arrs h1 = arrs h"
  | a h1 where "malloc_ptrs n h = (Some a, h1)" "strs h1 = strs h"
      "arrs h1 = (a, replicate n Uninit) # arrs h" "a \<notin> fst ` set (arrs h)"
proof -
  obtain f h' where nf: "next_fails h = (f, h')"
    by (cases "next_fails h")
  with next_fails_frame [of h] have fr: "strs h' = strs h" "arrs h' = arrs h"
    by simp_all
  show ?thesis
  proof (cases f)
    case True
    with nf fr that(1) show ?thesis by (simp add: malloc_ptrs_def)
  next
    case False
    from fresh_notin(2) [of h'] fr have "fresh h' \<notin> fst ` set (arrs h)" by simp
    with False nf fr that(2) [of "fresh h'" "h'\<lparr>arrs := (fresh h', replicate n Uninit) # arrs h'\<rparr>"]
    show ?thesis by (simp add: malloc_ptrs_def)
  qed
qed

lemma owned_released:
  assumes "owned h0 orig_s st"
  shows "strs (free_ptrs (argv st) (free_chars orig_s (mem st))) = strs h0"
    and "arrs (free_ptrs (argv st) (free_chars orig_s (mem st))) = arrs h0"
  using assms
  by (auto simp: owned_def free_ptrs_def free_chars_def filter_absent_key)

text \<open>The part of \<open>str_to_argv\<close> after the two allocations, up to the label \<open>out\<close>.\<close>

definition run_loop :: "byte list \<Rightarrow> nat \<Rightarrow> nat \<Rightarrow> heap \<Rightarrow> sta" where
  "run_loop seps orig_s a h2 =
     (let st0 = call_gettok seps orig_s
                  \<lparr>mem = h2, s_ptr = 0, argv = a, tok = Uninit, argc = 0, args = 10, err = 0\<rparr>;
          (jump, st1) = str_to_argv_loop seps orig_s st0
      in if jump then st1
         else st1\<lparr>mem := set_ptr (argv st1) (argc st1 + 1) (Ref orig_s 0)
                           (set_ptr (argv st1) (argc st1) Null (mem st1))\<rparr>)"

lemma str_to_argv_unfold:
  assumes "strdup ins h = (Some orig_s, h1)" and "malloc_ptrs 10 h1 = (Some a, h2)"
  shows "str_to_argv ins r_argc r_argv seps h =
     (let st2 = run_loop (case seps of None \<Rightarrow> default_seps | Some x \<Rightarrow> x) orig_s a h2
      in if err st2 \<noteq> 0
         then \<lparr>ret = err st2,
               mem_out = free_ptrs (argv st2) (free_chars orig_s (mem st2)),
               argc_out = r_argc, argv_out = r_argv\<rparr>
         else \<lparr>ret = 0, mem_out = mem st2,
               argc_out = int (argc st2), argv_out = Some (argv st2)\<rparr>)"
  using assms by (simp add: str_to_argv_def run_loop_def Let_def split: prod.splits)

lemma run_loop_owned:
  assumes "strs h2 = (orig_s, b) # strs h" and "arrs h2 = (a, c) # arrs h"
    and "orig_s \<notin> fst ` set (strs h)" and "a \<notin> fst ` set (arrs h)"
  shows "owned h orig_s (run_loop seps orig_s a h2)" and "err_ok (run_loop seps orig_s a h2)"
proof -
  let ?i = "\<lparr>mem = h2, s_ptr = 0, argv = a, tok = Uninit, argc = 0, args = 10, err = 0\<rparr>"
  let ?st0 = "call_gettok seps orig_s ?i"
  from assms have "owned h orig_s ?i"
    by (simp add: owned_def)
  then have o0: "owned h orig_s ?st0"
    by (rule owned_call_gettok)
  have e0: "err_ok ?st0"
    using err_call_gettok [of seps orig_s ?i] by (auto simp: err_ok_def)
  obtain j st1 where l: "str_to_argv_loop seps orig_s ?st0 = (j, st1)"
    by (cases "str_to_argv_loop seps orig_s ?st0")
  from owned_str_to_argv_loop [OF o0, of seps] l have o1: "owned h orig_s st1"
    by simp
  from err_ok_str_to_argv_loop [OF e0, of seps orig_s] l have e1: "err_ok st1"
    by simp
  from owned_set_ptr [OF owned_set_ptr [OF o1, of "argc st1" Null], of "argc st1 + 1" "Ref orig_s 0"]
  have o2: "owned h orig_s (st1\<lparr>mem := set_ptr (argv st1) (argc st1 + 1) (Ref orig_s 0)
                           (set_ptr (argv st1) (argc st1) Null (mem st1))\<rparr>)"
    by simp
  from l o1 o2 show "owned h orig_s (run_loop seps orig_s a h2)"
    by (simp add: run_loop_def Let_def)
  from l e1 show "err_ok (run_loop seps orig_s a h2)"
    by (simp add: run_loop_def Let_def err_ok_def)
qed

section \<open>The modes of the specification and the local variables\<close>

text \<open>
  The parse state as the specification words it (section 3: Normal, InQuote of a kind,
  Escaping with a form and a number of digits collected), with one more mode for the
  place between tokens, where leading separators are skipped (section 4.1, step 1). A
  quote stays open while an escape is decoded, so the two are kept side by side.
\<close>

datatype quoting = Unquoted | Single | Double

datatype escaping = NoEscape | Introduced | Octal nat | Hex nat

datatype mode = Between | Inside quoting escaping

text \<open>
  Section 4.1, step 3, for a character met with no escape pending: quote toggling, escape
  start, separator outside a quote, any other character.
\<close>

definition spec_normal :: "byte list \<Rightarrow> quoting \<Rightarrow> byte \<Rightarrow> mode" where
  "spec_normal seps q c =
     (if (q = Single \<and> c = 0x27) \<or> (q = Double \<and> c = 0x22) then Inside Unquoted NoEscape
      else if q = Unquoted \<and> c = 0x27 then Inside Single NoEscape
      else if q = Unquoted \<and> c = 0x22 then Inside Double NoEscape
      else if c = 0x5C then Inside q Introduced
      else if q = Unquoted \<and> c \<in> set seps then Between
      else Inside q NoEscape)"

text \<open>
  One character of input, by the rules of section 4.1: leading separators are skipped;
  after a backslash an octal digit starts a collection of up to 3 octal digits, \<open>x\<close>
  one of up to 2 hex digits, any other character ends the escape; a character that
  interrupts a collection is processed under the normal rules.
\<close>

fun spec_step :: "byte list \<Rightarrow> mode \<Rightarrow> byte \<Rightarrow> mode" where
  "spec_step seps Between c =
     (if c \<in> set seps then Between else spec_normal seps Unquoted c)"
| "spec_step seps (Inside q NoEscape) c = spec_normal seps q c"
| "spec_step seps (Inside q Introduced) c =
     (if isodigit c then Inside q (Octal 1)
      else if c = 0x78 then Inside q (Hex 0)
      else Inside q NoEscape)"
| "spec_step seps (Inside q (Octal n)) c =
     (if isodigit c then (if n + 1 = 3 then Inside q NoEscape else Inside q (Octal (n + 1)))
      else spec_normal seps q c)"
| "spec_step seps (Inside q (Hex n)) c =
     (if isxdigit c then (if n + 1 = 2 then Inside q NoEscape else Inside q (Hex (n + 1)))
      else spec_normal seps q c)"

definition spec_mode :: "byte list \<Rightarrow> byte list \<Rightarrow> mode" where
  "spec_mode seps input = foldl (spec_step seps) Between input"

text \<open>
  Section 4.1, step 4: the input ends inside a quote, or in an escape with no digit
  collected where one is required (right after the backslash, or right after \<open>\x\<close>).
\<close>

fun malformed :: "mode \<Rightarrow> bool" where
  "malformed Between = False"
| "malformed (Inside q e) = (q \<noteq> Unquoted \<or> e = Introduced \<or> e = Hex 0)"

text \<open>The mode the local variables of \<open>gettok\<close> stand for.\<close>

definition quoting_of :: "byte \<Rightarrow> quoting" where
  "quoting_of q = (if q = 0x27 then Single else if q = 0x22 then Double else Unquoted)"

definition escaping_of :: "nat \<Rightarrow> nat \<Rightarrow> escaping" where
  "escaping_of e b =
     (if e = 0 then NoEscape else if e = 1 then Introduced
      else if b = 16 then Hex (e - 2) else Octal (e - 1))"

definition mode_of :: "gt \<Rightarrow> mode" where
  "mode_of st = Inside (quoting_of (inquote st)) (escaping_of (escape st) (base st))"

lemma process_char_mode:
  assumes "process_char seps st = (brk, st')" and "escape st = 0"
    and "inquote st = 0 \<or> inquote st = 0x27 \<or> inquote st = 0x22"
    and "rd (buf st) (ptr_p st) \<noteq> 0"
  shows "spec_normal (cstring seps) (quoting_of (inquote st)) (rd (buf st) (ptr_p st))
         = (if brk then Between else mode_of st')"
  using assms(1)
proof (cases rule: process_char_cases)
  case unquote
  with assms(2-) show ?thesis
    by (auto simp: spec_normal_def quoting_of_def mode_of_def escaping_of_def)
next
  case quote
  with assms(2-) show ?thesis
    by (auto simp: spec_normal_def quoting_of_def mode_of_def escaping_of_def)
next
  case backslash
  with assms(2-) show ?thesis
    by (auto simp: spec_normal_def quoting_of_def mode_of_def escaping_of_def)
next
  case separator
  with assms(2-) show ?thesis
    by (auto simp: spec_normal_def quoting_of_def is_sep_space_def strchr_def)
next
  case copy
  with assms(2-) show ?thesis
    by (auto simp: spec_normal_def quoting_of_def mode_of_def escaping_of_def put_def
        is_sep_space_def strchr_def)
qed

lemma loop_body_mode:
  assumes "scan_inv st" and "rd (buf st) (ptr_p st) \<noteq> 0" and "loop_body seps st = (brk, st')"
  shows "spec_step (cstring seps) (mode_of st) (rd (buf st) (ptr_p st))
         = (if brk then Between else mode_of st')"
  using assms(3)
proof (cases rule: loop_body_cases)
  case first_octal
  then show ?thesis by (simp add: mode_of_def escaping_of_def)
next
  case hex_intro
  then show ?thesis by (simp add: mode_of_def escaping_of_def)
next
  case single
  then show ?thesis by (simp add: mode_of_def escaping_of_def put_def)
next
  case more_digits
  with assms(1) show ?thesis
    by (auto simp: mode_of_def escaping_of_def scan_inv_def dest: isodigit_isxdigit)
next
  case last_digit
  with assms(1) show ?thesis
    by (auto simp: mode_of_def escaping_of_def scan_inv_def put_def dest: isodigit_isxdigit)
next
  case interrupted
  let ?f = "(put (cval st) st)\<lparr>escape := 0\<rparr>"
  from assms(1) interrupted(1) have ne: "ptr_o st \<noteq> ptr_p st"
    by (simp add: scan_inv_def)
  then have same: "rd (buf ?f) (ptr_p ?f) = rd (buf st) (ptr_p st)"
    by (simp add: put_def rd_update_other)
  from assms(1) have q: "inquote ?f = 0 \<or> inquote ?f = 0x27 \<or> inquote ?f = 0x22"
    by (simp add: scan_inv_def put_def)
  from process_char_mode [OF interrupted(3) _ q] same assms(2)
  have "spec_normal (cstring seps) (quoting_of (inquote st)) (rd (buf st) (ptr_p st))
         = (if brk then Between else mode_of st')"
    by (simp add: put_def)
  with assms(1) interrupted(1,2) show ?thesis
    by (auto simp: mode_of_def escaping_of_def scan_inv_def dest: isodigit_isxdigit)
next
  case plain
  from assms(1) have q: "inquote st = 0 \<or> inquote st = 0x27 \<or> inquote st = 0x22"
    by (simp add: scan_inv_def)
  from process_char_mode [OF plain(2,1) q assms(2)] plain(1) show ?thesis
    by (simp add: mode_of_def escaping_of_def)
qed


lemma cstring_drop_Cons: "rd b i \<noteq> 0 \<Longrightarrow> cstring (drop i b) = rd b i # cstring (drop (Suc i) b)"
  by (simp add: rd_def cstring_def Cons_nth_drop_Suc [symmetric] split: if_splits)

lemma cstring_drop_Nil: "rd b i = 0 \<Longrightarrow> cstring (drop i b) = []"
proof (cases "i < length b")
  case True
  assume "rd b i = 0"
  with True show ?thesis
    by (simp add: rd_def cstring_def Cons_nth_drop_Suc [symmetric])
next
  case False
  then show ?thesis by (simp add: cstring_def)
qed

lemma process_char_suffix:
  assumes "process_char seps st = (brk, st')" and "ptr_o st \<le> ptr_p st"
  shows "drop (Suc (ptr_p st)) (buf st') = drop (Suc (ptr_p st)) (buf st)"
  using assms(1)
  by (cases rule: process_char_cases) (use assms(2) in \<open>simp_all add: put_def drop_update_cancel\<close>)

lemma loop_body_suffix:
  assumes "scan_inv st" and "loop_body seps st = (brk, st')"
  shows "drop (Suc (ptr_p st)) (buf st') = drop (Suc (ptr_p st)) (buf st)"
  using assms(2)
proof (cases rule: loop_body_cases)
  case interrupted
  from assms(1) interrupted(1) have "ptr_o st + 2 \<le> ptr_p st"
    by (simp add: scan_inv_def)
  with process_char_suffix [OF interrupted(3)] show ?thesis
    by (simp add: put_def drop_update_cancel)
next
  case plain
  from assms(1) have "ptr_o st \<le> ptr_p st"
    by (simp add: scan_inv_def)
  with process_char_suffix [OF plain(2)] show ?thesis
    by simp
qed (use assms(1) in \<open>simp_all add: put_def drop_update_cancel scan_inv_def\<close>)

lemma gettok_loop_exit2:
  assumes "scan_inv st"
  shows "rd (buf (gettok_loop seps st)) (ptr_p (gettok_loop seps st)) = 0
         \<or> (escape (gettok_loop seps st) = 0 \<and> inquote (gettok_loop seps st) = 0
             \<and> ptr_o (gettok_loop seps st) < ptr_p (gettok_loop seps st))"
  using assms
proof (induction st rule: gettok_loop_cases [where seps = seps])
  case (stop st)
  then show ?case by (simp add: gettok_loop_stop)
next
  case (break st st')
  then show ?case by (simp add: gettok_loop_break scan_inv_break)
next
  case (step st st')
  from step(4) step(2) have "scan_inv (st'\<lparr>ptr_p := ptr_p st' + 1\<rparr>)"
    by (rule scan_inv_step)
  with step show ?case by (simp add: gettok_loop_step)
qed

text \<open>The mode the rest of the buffer, from index \<open>i\<close>, leads to when read in mode \<open>m\<close>.\<close>

definition rest_mode :: "byte list \<Rightarrow> mode \<Rightarrow> byte list \<Rightarrow> nat \<Rightarrow> mode" where
  "rest_mode seps m b i = foldl (spec_step (cstring seps)) m (cstring (drop i b))"

lemma rest_mode_Cons:
  "rd b i \<noteq> 0 \<Longrightarrow> rest_mode seps m b i = rest_mode seps (spec_step (cstring seps) m (rd b i)) b (Suc i)"
  by (simp add: rest_mode_def cstring_drop_Cons)

lemma rest_mode_Nil: "rd b i = 0 \<Longrightarrow> rest_mode seps m b i = m"
  by (simp add: rest_mode_def cstring_drop_Nil)

lemma rest_mode_cong:
  "drop i b' = drop i b \<Longrightarrow> rest_mode seps m b' i = rest_mode seps m b i"
  by (simp add: rest_mode_def)

lemma gettok_loop_mode:
  assumes "scan_inv st"
  shows "(rd (buf (gettok_loop seps st)) (ptr_p (gettok_loop seps st)) \<noteq> 0 \<longrightarrow>
            rest_mode seps (mode_of st) (buf st) (ptr_p st)
            = rest_mode seps Between (buf (gettok_loop seps st)) (ptr_p (gettok_loop seps st)))
       \<and> (rd (buf (gettok_loop seps st)) (ptr_p (gettok_loop seps st)) = 0 \<longrightarrow>
            malformed (rest_mode seps (mode_of st) (buf st) (ptr_p st))
            = malformed (mode_of (gettok_loop seps st)))"
  using assms
proof (induction st rule: gettok_loop_cases [where seps = seps])
  case (stop st)
  then show ?case by (simp add: gettok_loop_stop rest_mode_Nil)
next
  case (break st st')
  from loop_body_mode [OF break(3,1,2)]
  have m: "spec_step (cstring seps) (mode_of st) (rd (buf st) (ptr_p st)) = Between"
    by simp
  from loop_body_suffix [OF break(3,2)] loop_body_break(1) [OF break(2)]
  have "drop (ptr_p st') (buf st') = drop (ptr_p st') (buf st)"
    by simp
  then have "rest_mode seps Between (buf st') (ptr_p st') = rest_mode seps Between (buf st) (ptr_p st')"
    by (rule rest_mode_cong)
  with rest_mode_Cons [OF break(1), of seps "mode_of st"] m loop_body_break(1) [OF break(2)]
  have eq: "rest_mode seps (mode_of st) (buf st) (ptr_p st) = rest_mode seps Between (buf st') (ptr_p st')"
    by simp
  from scan_inv_break(2,3) [OF break(3,2)] have "\<not> malformed (mode_of st')"
    by (simp add: mode_of_def quoting_of_def escaping_of_def)
  with eq show ?case
    by (simp add: gettok_loop_break [OF break(1,2)] rest_mode_Nil)
next
  case (step st st')
  let ?n = "st'\<lparr>ptr_p := ptr_p st' + 1\<rparr>"
  from step(4) step(2) have inv: "scan_inv ?n"
    by (rule scan_inv_step)
  from loop_body_mode [OF step(4,1,2)]
  have m: "spec_step (cstring seps) (mode_of st) (rd (buf st) (ptr_p st)) = mode_of st'"
    by simp
  have mn: "mode_of ?n = mode_of st'"
    by (simp add: mode_of_def)
  from loop_body_suffix [OF step(4,2)] loop_body_keeps(1) [OF step(2)]
  have "drop (ptr_p ?n) (buf ?n) = drop (ptr_p ?n) (buf st)"
    by simp
  then have "rest_mode seps (mode_of ?n) (buf ?n) (ptr_p ?n) = rest_mode seps (mode_of ?n) (buf st) (ptr_p ?n)"
    by (rule rest_mode_cong)
  with rest_mode_Cons [OF step(1), of seps "mode_of st"] m mn loop_body_keeps(1) [OF step(2)]
  have "rest_mode seps (mode_of st) (buf st) (ptr_p st) = rest_mode seps (mode_of ?n) (buf ?n) (ptr_p ?n)"
    by simp
  with step(3) [OF inv] show ?case
    by (simp add: gettok_loop_step [OF step(1,2)])
qed


lemma skip_spaces_stops: "\<not> is_sep_space (rd b (skip_spaces b s seps)) seps"
proof (induction b s seps rule: skip_spaces.induct)
  case (1 b s seps)
  then show ?case
    by (subst skip_spaces.simps) simp
qed

lemma skip_spaces_mode:
  "rest_mode seps Between b (skip_spaces b s seps) = rest_mode seps Between b s"
proof (induction b s seps rule: skip_spaces.induct)
  case (1 b s seps)
  show ?case
  proof (cases "is_sep_space (rd b s) seps")
    case True
    then have "rd b s \<noteq> 0" and "spec_step (cstring seps) Between (rd b s) = Between"
      by (simp_all add: is_sep_space_def strchr_def)
    with rest_mode_Cons [of b s seps Between] "1.IH" [OF True] True show ?thesis
      by (subst skip_spaces.simps) simp
  next
    case False
    then show ?thesis
      by (subst skip_spaces.simps) simp
  qed
qed

lemma rd_update_zero: "rd b j = 0 \<Longrightarrow> rd (b[i := 0]) j = 0"
  by (cases "i = j") (auto simp: rd_def)

lemma gettok_finish_mode:
  assumes "scan_inv st"
    and "rd (buf st) (ptr_p st) = 0
         \<or> (escape st = 0 \<and> inquote st = 0 \<and> ptr_o st < ptr_p st)"
  shows "rd (buf st) (ptr_p st) = 0 \<longrightarrow>
           (rv (gettok_finish t st) = - 1 \<longleftrightarrow> malformed (mode_of st))
           \<and> rd (buf_out (gettok_finish t st)) (s_out (gettok_finish t st)) = 0"
    and "rd (buf st) (ptr_p st) \<noteq> 0 \<longrightarrow>
           rv (gettok_finish t st) = 0
           \<and> drop (s_out (gettok_finish t st)) (buf_out (gettok_finish t st)) = drop (ptr_p st) (buf st)"
    and "s_out (gettok_finish t st) = ptr_p st"
proof -
  show "s_out (gettok_finish t st) = ptr_p st"
    by (simp add: gettok_finish_frame)
  show "rd (buf st) (ptr_p st) \<noteq> 0 \<longrightarrow>
           rv (gettok_finish t st) = 0
           \<and> drop (s_out (gettok_finish t st)) (buf_out (gettok_finish t st)) = drop (ptr_p st) (buf st)"
    using assms(2) by (auto simp: gettok_finish_def drop_update_cancel)
  show "rd (buf st) (ptr_p st) = 0 \<longrightarrow>
           (rv (gettok_finish t st) = - 1 \<longleftrightarrow> malformed (mode_of st))
           \<and> rd (buf_out (gettok_finish t st)) (s_out (gettok_finish t st)) = 0"
  proof
    assume z: "rd (buf st) (ptr_p st) = 0"
    let ?flush = "(base st = 8 \<and> escape st > 1) \<or> (base st = 16 \<and> escape st > 2)"
    have a: "rv (gettok_finish t st) = - 1 \<longleftrightarrow> malformed (mode_of st)"
      using assms(1)
      by (auto simp: gettok_finish_def Let_def put_def mode_of_def quoting_of_def escaping_of_def
          scan_inv_def)
    have b: "rd (buf_out (gettok_finish t st)) (ptr_p st) = 0"
    proof (cases ?flush)
      case True
      with assms(1) have "ptr_o st + 2 \<le> ptr_p st"
        by (auto simp: scan_inv_def)
      with True z show ?thesis
        by (auto simp: gettok_finish_def Let_def put_def rd_def)
    next
      case False
      with z show ?thesis
        by (auto simp: gettok_finish_def Let_def rd_update_zero)
    qed
    from a b show "(rv (gettok_finish t st) = - 1 \<longleftrightarrow> malformed (mode_of st))
           \<and> rd (buf_out (gettok_finish t st)) (s_out (gettok_finish t st)) = 0"
      by (simp add: gettok_finish_frame)
  qed
qed

text \<open>
  The two values \<open>gettok\<close> returns, and which calls fail: those whose scan reaches the
  terminator in a mode the specification calls malformed.
\<close>

lemma gettok_finish_rv: "rv (gettok_finish t st) = 0 \<or> rv (gettok_finish t st) = - 1"
  by (simp add: gettok_finish_def Let_def)

lemma gettok_finish_tok:
  "rv (gettok_finish t st) = 0 \<Longrightarrow> tok_out (gettok_finish t st) = SetTok t"
  by (auto simp: gettok_finish_def Let_def split: if_splits)

lemma gettok_loop_outcome:
  assumes "scan_inv st"
  shows "rv (gettok_finish t (gettok_loop seps st)) = - 1 \<longleftrightarrow>
           rd (buf (gettok_loop seps st)) (ptr_p (gettok_loop seps st)) = 0
           \<and> malformed (rest_mode seps (mode_of st) (buf st) (ptr_p st))"
proof -
  let ?e = "gettok_loop seps st"
  have inv: "scan_inv ?e"
    using assms by (rule scan_inv_gettok_loop)
  note ex = gettok_loop_exit2 [OF assms, of seps]
  note fin = gettok_finish_mode(1,2) [OF inv ex, of t]
  note md = gettok_loop_mode [OF assms, of seps, THEN conjunct2]
  show ?thesis
  proof (cases "rd (buf ?e) (ptr_p ?e) = 0")
    case True
    with fin(1) md show ?thesis by simp
  next
    case False
    with fin(2) show ?thesis by simp
  qed
qed

text \<open>
  Characters that are no quote and no backslash, read with no quote open and no escape
  pending, never open a quote or an escape.
\<close>

lemma plain_rest_not_malformed:
  assumes "\<forall>c \<in> set xs. c \<noteq> 0x27 \<and> c \<noteq> 0x22 \<and> c \<noteq> 0x5C"
    and "m = Between \<or> m = Inside Unquoted NoEscape"
  shows "foldl (spec_step seps) m xs = Between
         \<or> foldl (spec_step seps) m xs = Inside Unquoted NoEscape"
  using assms
proof (induction xs arbitrary: m)
  case Nil
  then show ?case by simp
next
  case (Cons c xs)
  from Cons.prems have "spec_step seps m c = Between \<or> spec_step seps m c = Inside Unquoted NoEscape"
    by (cases "c \<in> set seps") (auto simp: spec_normal_def)
  with Cons.IH [of "spec_step seps m c"] Cons.prems(1) show ?case
    by simp
qed

lemma gettok_mode:
  shows "rv (gettok b s seps) = - 1 \<Longrightarrow>
           malformed (rest_mode seps Between b s)
           \<and> rd (buf_out (gettok b s seps)) (s_out (gettok b s seps)) = 0"
    and "rv (gettok b s seps) = 0 \<Longrightarrow>
           malformed (rest_mode seps Between b s)
           = malformed (rest_mode seps Between (buf_out (gettok b s seps)) (s_out (gettok b s seps)))"
    and "tok_out (gettok b s seps) = SetNull \<Longrightarrow> \<not> malformed (rest_mode seps Between b s)"
proof -
  let ?t = "skip_spaces b s seps"
  let ?i = "\<lparr>ptr_p = ?t, ptr_o = ?t, inquote = 0, escape = 0, base = 8, cval = 0, buf = b\<rparr>"
  let ?e = "gettok_loop seps ?i"
  have rv01: "rv (gettok b s seps) = 0 \<or> rv (gettok b s seps) = - 1"
    by (rule gettok_rv)
  have all: "(rv (gettok b s seps) = - 1 \<longrightarrow>
           malformed (rest_mode seps Between b s)
           \<and> rd (buf_out (gettok b s seps)) (s_out (gettok b s seps)) = 0)
       \<and> (rv (gettok b s seps) = 0 \<longrightarrow>
           malformed (rest_mode seps Between b s)
           = malformed (rest_mode seps Between (buf_out (gettok b s seps)) (s_out (gettok b s seps))))
       \<and> (tok_out (gettok b s seps) = SetNull \<longrightarrow> \<not> malformed (rest_mode seps Between b s))"
  proof (cases "rd b ?t = 0")
    case True
    then have g: "gettok b s seps = \<lparr>rv = 0, s_out = ?t, tok_out = SetNull, buf_out = b\<rparr>"
      by (simp add: gettok_def)
    from True skip_spaces_mode [of seps b s] have "rest_mode seps Between b s = Between"
      by (simp add: rest_mode_Nil)
    with g skip_spaces_mode [of seps b s] show ?thesis
      by simp
  next
    case False
    then have g: "gettok b s seps = gettok_finish ?t ?e"
      by (simp add: gettok_def Let_def)
    have inv: "scan_inv ?e"
      by (rule scan_inv_gettok_loop [OF scan_inv_init])
    note ex = gettok_loop_exit2 [OF scan_inv_init, of seps ?t b]
    note fin = gettok_finish_mode [OF inv ex, of ?t]
    note lp = gettok_loop_mode [OF scan_inv_init, of seps ?t b]
    from skip_spaces_stops [of b s seps] False
    have "rd b ?t \<notin> set (cstring seps)"
      by (simp add: is_sep_space_def strchr_def)
    then have "spec_step (cstring seps) Between (rd b ?t)
               = spec_step (cstring seps) (mode_of ?i) (rd b ?t)"
      by (simp add: mode_of_def quoting_of_def escaping_of_def)
    with rest_mode_Cons [OF False, of seps] 
    have "rest_mode seps Between b ?t = rest_mode seps (mode_of ?i) b ?t"
      by simp
    with skip_spaces_mode [of seps b s]
    have start: "rest_mode seps Between b s = rest_mode seps (mode_of ?i) (buf ?i) (ptr_p ?i)"
      by simp
    have ns: "tok_out (gettok b s seps) \<noteq> SetNull"
      by (simp add: g gettok_finish_frame)
    show ?thesis
    proof (cases "rd (buf ?e) (ptr_p ?e) = 0")
      case z: True
      with lp start have m: "malformed (rest_mode seps Between b s) = malformed (mode_of ?e)"
        by simp
      from fin(1) z have r: "rv (gettok b s seps) = - 1 \<longleftrightarrow> malformed (mode_of ?e)"
        and e: "rd (buf_out (gettok b s seps)) (s_out (gettok b s seps)) = 0"
        by (simp_all add: g)
      from e have "rest_mode seps Between (buf_out (gettok b s seps)) (s_out (gettok b s seps)) = Between"
        by (simp add: rest_mode_Nil)
      with m r e ns rv01 show ?thesis
        by auto
    next
      case nz: False
      with lp start
      have m: "rest_mode seps Between b s = rest_mode seps Between (buf ?e) (ptr_p ?e)"
        by simp
      from fin(2) nz have r: "rv (gettok b s seps) = 0"
        and d: "drop (s_out (gettok b s seps)) (buf_out (gettok b s seps)) = drop (ptr_p ?e) (buf ?e)"
        by (simp_all add: g)
      from fin(3) have so: "s_out (gettok b s seps) = ptr_p ?e"
        by (simp add: g)
      from d so have "rest_mode seps Between (buf_out (gettok b s seps)) (s_out (gettok b s seps))
                 = rest_mode seps Between (buf ?e) (ptr_p ?e)"
        by (simp add: rest_mode_def)
      with m r ns show ?thesis
        by simp
    qed
  qed
  from all show "rv (gettok b s seps) = - 1 \<Longrightarrow>
           malformed (rest_mode seps Between b s)
           \<and> rd (buf_out (gettok b s seps)) (s_out (gettok b s seps)) = 0"
    and "rv (gettok b s seps) = 0 \<Longrightarrow>
           malformed (rest_mode seps Between b s)
           = malformed (rest_mode seps Between (buf_out (gettok b s seps)) (s_out (gettok b s seps)))"
    and "tok_out (gettok b s seps) = SetNull \<Longrightarrow> \<not> malformed (rest_mode seps Between b s)"
    by blast+
qed


text \<open>No allocation request to come fails.\<close>

definition nofail :: "heap \<Rightarrow> bool" where
  "nofail h \<longleftrightarrow> True \<notin> set (fails h)"

lemma next_fails_nofail:
  assumes "nofail h"
  shows "fst (next_fails h) = False" and "nofail (snd (next_fails h))"
  using assms by (auto simp: nofail_def next_fails_def split: list.splits)

text \<open>
  What holds after every call of \<open>gettok\<close> in \<open>str_to_argv\<close>, for \<open>M\<close> the fact that
  the whole input is malformed: a failure means \<open>M\<close>, the end of the tokens means not
  \<open>M\<close>, and after a token \<open>M\<close> is decided by the rest of the buffer.
\<close>

definition tracks :: "byte list \<Rightarrow> nat \<Rightarrow> bool \<Rightarrow> sta \<Rightarrow> bool" where
  "tracks seps orig_s M st \<longleftrightarrow>
     (err st = 0 \<or> err st = - 1)
     \<and> (err st = - 1 \<longrightarrow> M)
     \<and> (err st = 0 \<and> tok st = Null \<longrightarrow> \<not> M)
     \<and> (err st = 0 \<and> tok st \<noteq> Null \<longrightarrow>
          M = malformed (rest_mode seps Between (chars (mem st) orig_s) (s_ptr st)))"

lemma owned_chars:
  assumes "owned h0 orig_s st"
  shows "chars (set_chars orig_s b (mem st)) orig_s = b"
  using assms by (auto simp: owned_def chars_def set_chars_def)

lemma call_gettok_tracks:
  assumes "owned h0 orig_s st"
    and "M = malformed (rest_mode seps Between (chars (mem st) orig_s) (s_ptr st))"
  shows "tracks seps orig_s M (call_gettok seps orig_s st)"
proof -
  let ?r = "gettok (chars (mem st) orig_s) (s_ptr st) seps"
  let ?st' = "call_gettok seps orig_s st"
  have e: "err ?st' = rv ?r" and s: "s_ptr ?st' = s_out ?r"
    and c: "chars (mem ?st') orig_s = buf_out ?r"
    and t: "tok ?st' = (case tok_out ?r of Unset \<Rightarrow> tok st | SetNull \<Rightarrow> Null
                    | SetTok t \<Rightarrow> Ref orig_s t)"
    using owned_chars [OF assms(1)] by (simp_all add: call_gettok_def Let_def)
  note gm = gettok_mode [of "chars (mem st) orig_s" "s_ptr st" seps]
  have 1: "err ?st' = 0 \<or> err ?st' = - 1"
    unfolding e by (rule gettok_rv)
  have 2: "M" if "err ?st' = - 1"
    using that gm(1) assms(2) e by simp
  have 3: "\<not> M" if "err ?st' = 0" "tok ?st' = Null"
  proof -
    from that(1) e gettok_frame(3) [of "chars (mem st) orig_s" "s_ptr st" seps]
    have "tok_out ?r \<noteq> Unset" by simp
    with that(2) t have "tok_out ?r = SetNull"
      by (cases "tok_out ?r") simp_all
    with gm(3) assms(2) show ?thesis by simp
  qed
  have 4: "M = malformed (rest_mode seps Between (chars (mem ?st') orig_s) (s_ptr ?st'))"
    if "err ?st' = 0"
    using that gm(2) assms(2) e s c by simp
  from 1 2 3 4 show ?thesis
    unfolding tracks_def by blast
qed

lemma grow_argv_nofail:
  assumes "grow_argv st = (j, st1)" and "nofail (mem st)"
  shows "\<not> j" and "nofail (mem st1)"
proof -
  obtain f h' where nf: "next_fails (mem st) = (f, h')"
    by (cases "next_fails (mem st)")
  with next_fails_nofail [OF assms(2)] have f: "\<not> f" and h': "nofail h'"
    by simp_all
  from assms(1) nf f show "\<not> j"
    by (auto simp: grow_argv_def realloc_ptrs_def Let_def split: if_splits)
  from assms(1,2) nf f h' show "nofail (mem st1)"
    by (auto simp: grow_argv_def realloc_ptrs_def Let_def nofail_def free_ptrs_def split: if_splits)
qed

lemma nofail_cong: "fails h' = fails h \<Longrightarrow> nofail h' = nofail h"
  by (simp add: nofail_def)

lemma while_body_tracks:
  assumes "owned h0 orig_s st" and "tok st \<noteq> Null" and "err st = 0"
    and "tracks seps orig_s M st" and "while_body seps orig_s st = (j, st')"
  shows "\<not> j \<longrightarrow> tracks seps orig_s M st'"
    and "j \<longrightarrow> err st' = ENOMEM"
    and "nofail (mem st) \<longrightarrow> \<not> j \<and> nofail (mem st')"
proof -
  obtain j1 st1 where g: "grow_argv st = (j1, st1)"
    by (cases "grow_argv st")
  note fr = grow_argv_frame [OF g]
  let ?st2 = "st1\<lparr>mem := set_ptr (argv st1) (argc st1) (tok st1) (mem st1), argc := argc st1 + 1\<rparr>"
  from assms(5) g have j: "j = j1" and st': "\<not> j1 \<Longrightarrow> st' = call_gettok seps orig_s ?st2"
    and stj: "j1 \<Longrightarrow> st' = st1"
    by (cases j1; simp add: while_body_def)+
  from owned_grow_argv [OF assms(1) g] have o1: "owned h0 orig_s st1" .
  from owned_set_ptr [OF o1, of "argc st1" "tok st1"] have o2: "owned h0 orig_s ?st2"
    by (simp add: owned_def)
  have c2: "chars (mem ?st2) orig_s = chars (mem st) orig_s" and s2: "s_ptr ?st2 = s_ptr st"
    using fr by (simp_all add: chars_def strs_set_ptr)
  from assms(2,3,4) have "M = malformed (rest_mode seps Between (chars (mem st) orig_s) (s_ptr st))"
    by (simp add: tracks_def)
  with c2 s2 have "M = malformed (rest_mode seps Between (chars (mem ?st2) orig_s) (s_ptr ?st2))"
    by simp
  from call_gettok_tracks [OF o2 this] st' j show "\<not> j \<longrightarrow> tracks seps orig_s M st'"
    by simp
  from grow_argv_err [OF g] stj j show "j \<longrightarrow> err st' = ENOMEM"
    by simp
  show "nofail (mem st) \<longrightarrow> \<not> j \<and> nofail (mem st')"
  proof
    assume nf: "nofail (mem st)"
    from grow_argv_nofail [OF g nf] have nj: "\<not> j1" and n1: "nofail (mem st1)"
      by simp_all
    have "fails (mem (call_gettok seps orig_s ?st2)) = fails (mem st1)"
      by (simp add: call_gettok_def Let_def set_chars_def set_ptr_def)
    with n1 st' [OF nj] j nj show "\<not> j \<and> nofail (mem st')"
      by (simp add: nofail_def)
  qed
qed

lemma str_to_argv_loop_tracks:
  assumes "owned h0 orig_s st" and "tracks seps orig_s M st"
  shows "(\<not> fst (str_to_argv_loop seps orig_s st) \<longrightarrow>
            tracks seps orig_s M (snd (str_to_argv_loop seps orig_s st))
            \<and> \<not> (tok (snd (str_to_argv_loop seps orig_s st)) \<noteq> Null
                 \<and> err (snd (str_to_argv_loop seps orig_s st)) = 0))
       \<and> (fst (str_to_argv_loop seps orig_s st) \<longrightarrow>
            err (snd (str_to_argv_loop seps orig_s st)) = ENOMEM)
       \<and> (nofail (mem st) \<longrightarrow> \<not> fst (str_to_argv_loop seps orig_s st))"
  using assms
proof (induction st rule: str_to_argv_loop_cases [where seps = seps and orig_s = orig_s])
  case (finished st)
  then show ?case by (simp add: str_to_argv_loop_done)
next
  case (jump st st')
  from while_body_tracks [OF jump(4,1,2,5,3)] show ?case
    by (simp add: str_to_argv_loop_jump [OF jump(1,2,3)])
next
  case (again st st')
  note wb = while_body_tracks [OF again(5,1,2,6,3)]
  from owned_while_body [OF again(5,3)] have o: "owned h0 orig_s st'" .
  from wb(1) have t: "tracks seps orig_s M st'" by simp
  from again(4) [OF o t] wb(3) show ?case
    by (simp add: str_to_argv_loop_again [OF again(1,2,3)])
qed


lemma cstring_idem: "cstring (cstring m @ [0]) = cstring m"
proof -
  have "takeWhile P (takeWhile P xs @ [z]) = takeWhile P xs" if "\<not> P z" for P :: "byte \<Rightarrow> bool" and xs z
    using that by (induction xs) auto
  then show ?thesis by (simp add: cstring_def)
qed

lemma rest_mode_start: "rest_mode seps Between (cstring ins @ [0]) 0 = spec_mode (cstring seps) (cstring ins)"
  by (simp add: rest_mode_def spec_mode_def cstring_idem)

lemma run_loop_tracks:
  fixes h :: heap
  assumes "strs h2 = (orig_s, b) # strs h" and "arrs h2 = (a, c) # arrs h"
    and "orig_s \<notin> fst ` set (strs h)" and "a \<notin> fst ` set (arrs h)"
  shows "err (run_loop seps orig_s a h2) = - 1 \<longrightarrow> malformed (rest_mode seps Between b 0)"
    and "nofail h2 \<longrightarrow> malformed (rest_mode seps Between b 0) \<longrightarrow> err (run_loop seps orig_s a h2) = - 1"
proof -
  let ?M = "malformed (rest_mode seps Between b 0)"
  let ?i = "\<lparr>mem = h2, s_ptr = 0, argv = a, tok = Uninit, argc = 0, args = 10, err = 0\<rparr>"
  let ?st0 = "call_gettok seps orig_s ?i"
  from assms have oi: "owned h orig_s ?i"
    by (simp add: owned_def)
  then have o0: "owned h orig_s ?st0"
    by (rule owned_call_gettok)
  from assms(1) have "chars (mem ?i) orig_s = b"
    by (simp add: chars_def)
  then have "?M = malformed (rest_mode seps Between (chars (mem ?i) orig_s) (s_ptr ?i))"
    by simp
  from call_gettok_tracks [OF oi this] have t0: "tracks seps orig_s ?M ?st0" .
  have f0: "fails (mem ?st0) = fails h2"
    by (simp add: call_gettok_def Let_def set_chars_def)
  obtain j st1 where l: "str_to_argv_loop seps orig_s ?st0 = (j, st1)"
    by (cases "str_to_argv_loop seps orig_s ?st0")
  from str_to_argv_loop_tracks [OF o0 t0] l f0
  have nj: "\<not> j \<longrightarrow> tracks seps orig_s ?M st1 \<and> \<not> (tok st1 \<noteq> Null \<and> err st1 = 0)"
    and jj: "j \<longrightarrow> err st1 = ENOMEM"
    and nf: "nofail h2 \<longrightarrow> \<not> j"
    by (simp_all add: nofail_def)
  from l have e: "err (run_loop seps orig_s a h2) = err st1"
    by (simp add: run_loop_def Let_def)
  from nj jj show "err (run_loop seps orig_s a h2) = - 1 \<longrightarrow> ?M"
    unfolding e by (cases j) (auto simp: tracks_def ENOMEM_def)
  from nj nf show "nofail h2 \<longrightarrow> ?M \<longrightarrow> err (run_loop seps orig_s a h2) = - 1"
    unfolding e by (auto simp: tracks_def)
qed

lemma strdup_nofail:
  assumes "nofail h"
  shows "fst (strdup ins h) \<noteq> None" and "nofail (snd (strdup ins h))"
  using next_fails_nofail [OF assms]
  by (auto simp: strdup_def nofail_def split: prod.splits bool.splits)

lemma malloc_ptrs_nofail:
  assumes "nofail h"
  shows "fst (malloc_ptrs n h) \<noteq> None" and "nofail (snd (malloc_ptrs n h))"
  using next_fails_nofail [OF assms]
  by (auto simp: malloc_ptrs_def nofail_def split: prod.splits bool.splits)

section \<open>Where the bytes of a token come from\<close>

text \<open>
  Where a byte of the buffer comes from: it is the input byte at an index, put there by
  one of the two copying statements \<open>*o++ = *p\<close> (or never touched), or it was made by
  an escape: the value of a named escape or of octal or hex digits.
\<close>

datatype origin = From nat | Made

text \<open>
  The origins of the bytes one pass of the loop body writes, in the order it writes them.
  With no escape pending the only write is the copy at the end of \<open>process_char\<close>.
  Right after a backslash the one write is the \<open>switch\<close>: its \<open>default\<close> copies the
  character, the named cases make a byte. While digits are collected the first write is
  the value of the escape, and a second one is the copy of the interrupting character.
\<close>

definition origins :: "gt \<Rightarrow> origin list" where
  "origins st =
     (if escape st = 0 then [From (ptr_p st)]
      else if escape st = 1 then
        [if named_escape (rd (buf st) (ptr_p st)) = rd (buf st) (ptr_p st)
         then From (ptr_p st) else Made]
      else [Made, From (ptr_p st)])"

text \<open>
  The origins after a pass that led from \<open>st\<close> to \<open>st'\<close>: the cells from the old write
  cursor to the new one get the origins of what the pass wrote.
\<close>

definition mark :: "gt \<Rightarrow> gt \<Rightarrow> origin list \<Rightarrow> origin list" where
  "mark st st' sh =
     (if ptr_o st' = ptr_o st then sh
      else if ptr_o st' = ptr_o st + 1 then sh[ptr_o st := hd (origins st)]
      else sh[ptr_o st := hd (origins st), ptr_o st + 1 := last (origins st)])"

text \<open>The origins along the loop of \<open>gettok\<close>, pass by pass.\<close>

function gettok_loop_src :: "byte list \<Rightarrow> gt \<Rightarrow> origin list \<Rightarrow> origin list" where
  "gettok_loop_src seps st sh =
     (if rd (buf st) (ptr_p st) = 0 then sh
      else (case loop_body seps st of
              (brk, st') \<Rightarrow>
                if brk then mark st st' sh
                else gettok_loop_src seps (st'\<lparr>ptr_p := ptr_p st' + 1\<rparr>) (mark st st' sh)))"
  by pat_completeness auto
termination
proof (relation "measure (\<lambda>(seps, st, sh). length (buf st) - ptr_p st)")
  show "wf (measure (\<lambda>(seps, st, sh). length (buf st) - ptr_p st))"
    by simp
next
  fix seps :: "byte list" and st st' :: gt and brk :: bool and sh :: "origin list"
  assume nz: "rd (buf st) (ptr_p st) \<noteq> 0"
    and body: "(brk, st') = loop_body seps st" and "\<not> brk"
  then have b: "loop_body seps st = (False, st')"
    by simp
  from nz have "ptr_p st < length (buf st)"
    by (rule rd_nonzero_in_range)
  with loop_body_keeps [OF b]
  show "((seps, st'\<lparr>ptr_p := ptr_p st' + 1\<rparr>, mark st st' sh), (seps, st, sh))
          \<in> measure (\<lambda>(seps, st, sh). length (buf st) - ptr_p st)"
    by simp
qed

declare gettok_loop_src.simps [simp del]

lemma gettok_loop_src_stop: "rd (buf st) (ptr_p st) = 0 \<Longrightarrow> gettok_loop_src seps st sh = sh"
  by (subst gettok_loop_src.simps) simp

lemma gettok_loop_src_break:
  "rd (buf st) (ptr_p st) \<noteq> 0 \<Longrightarrow> loop_body seps st = (True, st') \<Longrightarrow>
   gettok_loop_src seps st sh = mark st st' sh"
  by (subst gettok_loop_src.simps) simp

lemma gettok_loop_src_step:
  "rd (buf st) (ptr_p st) \<noteq> 0 \<Longrightarrow> loop_body seps st = (False, st') \<Longrightarrow>
   gettok_loop_src seps st sh = gettok_loop_src seps (st'\<lparr>ptr_p := ptr_p st' + 1\<rparr>) (mark st st' sh)"
  by (subst gettok_loop_src.simps) simp

text \<open>The origins after a call of \<open>gettok\<close>: the flush after the loop writes a made byte.\<close>

definition gettok_src :: "byte list \<Rightarrow> origin list \<Rightarrow> nat \<Rightarrow> byte list \<Rightarrow> origin list" where
  "gettok_src b sh s seps =
     (let t = skip_spaces b s seps in
      if rd b t = 0 then sh
      else (let i = \<lparr>ptr_p = t, ptr_o = t, inquote = 0, escape = 0, base = 8, cval = 0, buf = b\<rparr>;
                st = gettok_loop seps i;
                sh1 = gettok_loop_src seps i sh
            in if (base st = 8 \<and> escape st > 1) \<or> (base st = 16 \<and> escape st > 2)
               then sh1[ptr_o st := Made] else sh1))"

text \<open>The origins along the loop of \<open>str_to_argv\<close>, one call of \<open>gettok\<close> per pass.\<close>

function str_to_argv_loop_src :: "byte list \<Rightarrow> nat \<Rightarrow> sta \<Rightarrow> origin list \<Rightarrow> origin list" where
  "str_to_argv_loop_src seps orig_s st sh =
     (if tok st \<noteq> Null \<and> err st = 0 then
        (case while_body seps orig_s st of
           (jump, st') \<Rightarrow>
             if jump then sh
             else str_to_argv_loop_src seps orig_s st'
                    (gettok_src (chars (mem st) orig_s) sh (s_ptr st) seps))
      else sh)"
  by pat_completeness auto
termination
proof (relation "measure (\<lambda>(seps, orig_s, st, sh). loop_left orig_s st)")
  show "wf (measure (\<lambda>(seps, orig_s, st, sh). loop_left orig_s st))"
    by simp
next
  fix seps :: "byte list" and orig_s :: nat and st st' :: sta and j :: bool and sh :: "origin list"
  assume g: "tok st \<noteq> Null \<and> err st = 0"
    and wb: "(j, st') = while_body seps orig_s st" and nj: "\<not> j"
  then have "while_body seps orig_s st = (False, st')"
    by simp
  from while_body_left [OF g this]
  show "((seps, orig_s, st', gettok_src (chars (mem st) orig_s) sh (s_ptr st) seps),
         (seps, orig_s, st, sh)) \<in> measure (\<lambda>(seps, orig_s, st, sh). loop_left orig_s st)"
    by simp
qed

declare str_to_argv_loop_src.simps [simp del]


text \<open>The mode of the specification in which the input byte at index \<open>i\<close> is read.\<close>

definition mode_before :: "byte list \<Rightarrow> byte list \<Rightarrow> nat \<Rightarrow> mode" where
  "mode_before seps input i = foldl (spec_step seps) Between (take i input)"

text \<open>
  The input byte at index \<open>i\<close> is quoted or escaped: it is read inside a quote, right
  after a backslash, or as a digit of the escape being collected.
\<close>

definition protected :: "byte list \<Rightarrow> byte list \<Rightarrow> nat \<Rightarrow> bool" where
  "protected seps input i =
     (case mode_before seps input i of
        Between \<Rightarrow> False
      | Inside q e \<Rightarrow>
          q \<noteq> Unquoted
          \<or> (case e of NoEscape \<Rightarrow> False | Introduced \<Rightarrow> True
              | Octal n \<Rightarrow> isodigit (input ! i) | Hex n \<Rightarrow> isxdigit (input ! i)))"

text \<open>
  A byte \<open>c\<close> with its origin is as claim C7 wants it: made by an escape, or the input
  byte at an index, and then quoted or escaped there if it is a separator.
\<close>

definition legit :: "byte list \<Rightarrow> byte list \<Rightarrow> byte \<Rightarrow> origin \<Rightarrow> bool" where
  "legit seps input c g =
     (case g of
        Made \<Rightarrow> True
      | From i \<Rightarrow> i < length input \<and> input ! i = c \<and> (c \<in> set seps \<longrightarrow> protected seps input i))"

lemma mode_before_Suc:
  "i < length input \<Longrightarrow>
   mode_before seps input (Suc i) = spec_step seps (mode_before seps input i) (input ! i)"
  by (simp add: mode_before_def take_Suc_conv_app_nth)

lemma mark_same: "ptr_o st' = ptr_o st \<Longrightarrow> mark st st' sh = sh"
  by (simp add: mark_def)

lemma mark_one: "ptr_o st' = ptr_o st + 1 \<Longrightarrow> mark st st' sh = sh[ptr_o st := hd (origins st)]"
  by (simp add: mark_def)

lemma mark_two:
  "ptr_o st' = ptr_o st + 2 \<Longrightarrow>
   mark st st' sh = sh[ptr_o st := hd (origins st), ptr_o st + 1 := last (origins st)]"
  by (simp add: mark_def)

lemma loop_body_writes:
  assumes "loop_body seps st = (brk, st')"
  shows "ptr_o st' = ptr_o st \<or> ptr_o st' = ptr_o st + 1 \<or> ptr_o st' = ptr_o st + 2"
  using assms
proof (cases rule: loop_body_cases)
  case interrupted
  from interrupted(3) show ?thesis
    by (cases rule: process_char_cases) (simp_all add: put_def)
next
  case plain
  from plain(2) show ?thesis
    by (cases rule: process_char_cases) (simp_all add: put_def)
qed (simp_all add: put_def)

lemma mark_frame:
  assumes "loop_body seps st = (brk, st')"
  shows "length (mark st st' sh) = length sh" and "j < ptr_o st \<Longrightarrow> mark st st' sh ! j = sh ! j"
  using loop_body_writes [OF assms]
  by (auto simp: mark_same mark_one mark_two)

text \<open>
  The mode of the specification and the local variables agree at the read cursor; at the
  first character of a token the specification is still between tokens.
\<close>

definition mode_agree :: "byte list \<Rightarrow> byte list \<Rightarrow> gt \<Rightarrow> bool" where
  "mode_agree seps input st \<longleftrightarrow>
     mode_before (cstring seps) input (ptr_p st) = mode_of st
     \<or> (mode_before (cstring seps) input (ptr_p st) = Between
        \<and> mode_of st = Inside Unquoted NoEscape
        \<and> \<not> is_sep_space (rd (buf st) (ptr_p st)) seps)"

lemma loop_body_mode_before:
  assumes "scan_inv st" and "rd (buf st) (ptr_p st) \<noteq> 0" and "loop_body seps st = (brk, st')"
    and "ptr_p st < length input" and "rd (buf st) (ptr_p st) = input ! ptr_p st"
    and "mode_agree seps input st"
  shows "mode_before (cstring seps) input (Suc (ptr_p st)) = (if brk then Between else mode_of st')"
proof -
  let ?c = "rd (buf st) (ptr_p st)"
  from assms(6) have "spec_step (cstring seps) (mode_before (cstring seps) input (ptr_p st)) ?c
        = spec_step (cstring seps) (mode_of st) ?c"
    using assms(2) by (auto simp: mode_agree_def is_sep_space_def strchr_def)
  with loop_body_mode [OF assms(1,2,3)] mode_before_Suc [OF assms(4), of "cstring seps"] assms(5)
  show ?thesis by simp
qed


lemma protected_quoted:
  "mode_before seps input i = Inside q e \<Longrightarrow> q \<noteq> Unquoted \<Longrightarrow> protected seps input i"
  by (simp add: protected_def)

lemma protected_introduced:
  "mode_before seps input i = Inside q Introduced \<Longrightarrow> protected seps input i"
  by (simp add: protected_def)

lemma process_char_ghost:
  assumes pc: "process_char seps st = (brk, st')" and esc: "escape st = 0"
    and q: "inquote st = 0 \<or> inquote st = 0x27 \<or> inquote st = 0x22"
    and nz: "rd (buf st) (ptr_p st) \<noteq> 0"
    and inp: "ptr_p st < length input" "rd (buf st) (ptr_p st) = input ! ptr_p st"
    and o: "ptr_o st < length (buf st)" "length sh = length (buf st)"
    and prot: "inquote st \<noteq> 0 \<Longrightarrow> protected (cstring seps) input (ptr_p st)"
  shows "ptr_o st' = ptr_o st
         \<or> (ptr_o st' = ptr_o st + 1
            \<and> legit (cstring seps) input (buf st' ! ptr_o st) (From (ptr_p st)))"
  using pc
proof (cases rule: process_char_cases)
  case copy
  from copy(2,4) nz have "inquote st = 0 \<Longrightarrow> rd (buf st) (ptr_p st) \<notin> set (cstring seps)"
    by (simp add: is_sep_space_def strchr_def)
  with prot have "rd (buf st) (ptr_p st) \<in> set (cstring seps) \<Longrightarrow> protected (cstring seps) input (ptr_p st)"
    by blast
  with copy(6) inp o show ?thesis
    by (simp add: put_def legit_def)
qed simp_all

lemma loop_body_ghost:
  assumes inv: "scan_inv st" and nz: "rd (buf st) (ptr_p st) \<noteq> 0"
    and body: "loop_body seps st = (brk, st')"
    and inp: "ptr_p st < length input" "rd (buf st) (ptr_p st) = input ! ptr_p st"
    and agree: "mode_agree seps input st"
    and len: "length sh = length (buf st)"
    and j: "ptr_o st \<le> j" "j < ptr_o st'"
  shows "legit (cstring seps) input (buf st' ! j) (mark st st' sh ! j)"
proof -
  let ?S = "cstring seps"
  let ?c = "rd (buf st) (ptr_p st)"
  from nz have pl: "ptr_p st < length (buf st)"
    by (rule rd_nonzero_in_range)
  from inv have op: "ptr_o st + escape st \<le> ptr_p st"
    and qs: "inquote st = 0 \<or> inquote st = 0x27 \<or> inquote st = 0x22"
    by (simp_all add: scan_inv_def)
  have quoted: "protected ?S input (ptr_p st)" if "inquote st \<noteq> 0"
  proof -
    from that qs have nq: "quoting_of (inquote st) \<noteq> Unquoted"
      by (auto simp: quoting_of_def)
    with agree have "mode_before ?S input (ptr_p st) = mode_of st"
      by (auto simp: mode_agree_def mode_of_def)
    with nq show ?thesis
      by (auto simp: mode_of_def intro: protected_quoted)
  qed
  from body show ?thesis
  proof (cases rule: loop_body_cases)
    case first_octal
    with j show ?thesis by simp
  next
    case hex_intro
    with j show ?thesis by simp
  next
    case more_digits
    with j show ?thesis by simp
  next
    case single
    from single(5) have o': "ptr_o st' = ptr_o st + 1"
      and b': "buf st' ! ptr_o st = named_escape ?c"
      using op pl by (simp_all add: put_def)
    from j o' have jo: "j = ptr_o st" by simp
    from single(1) agree have "mode_before ?S input (ptr_p st) = mode_of st"
      by (auto simp: mode_agree_def mode_of_def escaping_of_def)
    with single(1) have "protected ?S input (ptr_p st)"
      by (auto simp: mode_of_def escaping_of_def intro: protected_introduced)
    with single(1) inp b' op pl len show ?thesis
      by (simp add: jo mark_one [OF o'] origins_def legit_def)
  next
    case last_digit
    from last_digit(4) have o': "ptr_o st' = ptr_o st + 1"
      by (simp add: put_def)
    from j o' have jo: "j = ptr_o st" by simp
    from last_digit(1) op pl len show ?thesis
      by (simp add: jo mark_one [OF o'] origins_def legit_def)
  next
    case interrupted
    let ?f = "(put (cval st) st)\<lparr>escape := 0\<rparr>"
    from op interrupted(1) have o2: "ptr_o st + 2 \<le> ptr_p st" by simp
    then have same: "rd (buf ?f) (ptr_p ?f) = ?c"
      by (simp add: put_def rd_update_other)
    from process_char_below [OF interrupted(3)]
    have low: "buf st' ! ptr_o st = buf ?f ! ptr_o st" and ge: "ptr_o st + 1 \<le> ptr_o st'"
      by (simp_all add: put_def)
    have pg: "ptr_o st' = ptr_o ?f
         \<or> (ptr_o st' = ptr_o ?f + 1
            \<and> legit ?S input (buf st' ! ptr_o ?f) (From (ptr_p ?f)))"
    proof (rule process_char_ghost [OF interrupted(3)])
      show "escape ?f = 0" by simp
      show "inquote ?f = 0 \<or> inquote ?f = 0x27 \<or> inquote ?f = 0x22"
        using qs by (simp add: put_def)
      show "rd (buf ?f) (ptr_p ?f) \<noteq> 0" using same nz by simp
      show "ptr_p ?f < length input" using inp by (simp add: put_def)
      show "rd (buf ?f) (ptr_p ?f) = input ! ptr_p ?f"
        using same inp by (simp add: put_def)
      show "ptr_o ?f < length (buf ?f)" using o2 pl by (simp add: put_def)
      show "length sh = length (buf ?f)" using len by (simp add: put_def)
      show "protected ?S input (ptr_p ?f)" if "inquote ?f \<noteq> 0"
        using that quoted by (simp add: put_def)
    qed
    from pg show ?thesis
    proof
      assume "ptr_o st' = ptr_o ?f"
      then have o': "ptr_o st' = ptr_o st + 1" by (simp add: put_def)
      from j o' have jo: "j = ptr_o st" by simp
      from interrupted(1) o2 pl len show ?thesis
        by (simp add: jo mark_one [OF o'] origins_def legit_def)
    next
      assume a: "ptr_o st' = ptr_o ?f + 1
            \<and> legit ?S input (buf st' ! ptr_o ?f) (From (ptr_p ?f))"
      then have o': "ptr_o st' = ptr_o st + 2"
        and lg: "legit ?S input (buf st' ! (ptr_o st + 1)) (From (ptr_p st))"
        by (simp_all add: put_def)
      from j o' have "j = ptr_o st \<or> j = ptr_o st + 1" by auto
      then show ?thesis
      proof
        assume jo: "j = ptr_o st"
        from interrupted(1) o2 pl len show ?thesis
          by (simp add: jo mark_two [OF o'] origins_def legit_def)
      next
        assume jo: "j = ptr_o st + 1"
        from interrupted(1) o2 pl len lg show ?thesis
          by (simp add: jo mark_two [OF o'] origins_def)
      qed
    qed
  next
    case plain
    have pg: "ptr_o st' = ptr_o st
         \<or> (ptr_o st' = ptr_o st + 1
            \<and> legit ?S input (buf st' ! ptr_o st) (From (ptr_p st)))"
    proof (rule process_char_ghost [OF plain(2,1) qs nz inp _ len])
      show "ptr_o st < length (buf st)" using op pl by simp
      show "protected ?S input (ptr_p st)" if "inquote st \<noteq> 0"
        using that by (rule quoted)
    qed
    from pg show ?thesis
    proof
      assume "ptr_o st' = ptr_o st"
      with j show ?thesis by simp
    next
      assume a: "ptr_o st' = ptr_o st + 1
            \<and> legit ?S input (buf st' ! ptr_o st) (From (ptr_p st))"
      then have o': "ptr_o st' = ptr_o st + 1" by simp
      from j o' have jo: "j = ptr_o st" by simp
      from a plain(1) op pl len show ?thesis
        by (simp add: jo mark_one [OF o'] origins_def)
    qed
  qed
qed


text \<open>The buffer from index \<open>i\<close> on is still the input and its terminator.\<close>

definition unread :: "byte list \<Rightarrow> byte list \<Rightarrow> nat \<Rightarrow> bool" where
  "unread input b i \<longleftrightarrow>
     0 \<notin> set input \<and> length b = Suc (length input) \<and> i \<le> length input
     \<and> drop i b = drop i (input @ [0])"

lemma drop_eq_nth:
  assumes "drop i a = drop i b" and "i < length a" and "i < length b"
  shows "a ! i = b ! i"
proof -
  from assms(1) have "hd (drop i a) = hd (drop i b)" by simp
  with assms(2,3) show ?thesis by (simp add: hd_drop_conv_nth)
qed

lemma drop_eq_Suc:
  assumes "drop i a = drop i b"
  shows "drop (Suc i) a = drop (Suc i) b"
proof -
  from assms have "drop 1 (drop i a) = drop 1 (drop i b)" by simp
  then show ?thesis by simp
qed

lemma ptr_p_update_same: "ptr_p st = n \<Longrightarrow> st\<lparr>ptr_p := n\<rparr> = st"
  by (cases st) simp

lemma unread_rd:
  assumes "unread input b i"
  shows "rd b i = (if i < length input then input ! i else 0)"
proof -
  from assms have l: "i < length b" "i < length (input @ [0])" and d: "drop i b = drop i (input @ [0])"
    by (simp_all add: unread_def)
  from drop_eq_nth [OF d l] have "b ! i = (input @ [0]) ! i" .
  with l show ?thesis
    by (auto simp: rd_def nth_append)
qed

lemma unread_nonzero:
  assumes "unread input b i" and "rd b i \<noteq> 0"
  shows "i < length input" and "rd b i = input ! i"
  using unread_rd [OF assms(1)] assms(2) by (auto split: if_splits)

lemma unread_Suc:
  assumes "unread input b i" and "i < length input" and "drop (Suc i) b' = drop (Suc i) b"
    and "length b' = length b"
  shows "unread input b' (Suc i)"
proof -
  from assms(1) have "drop i b = drop i (input @ [0])" by (simp add: unread_def)
  then have "drop (Suc i) b = drop (Suc i) (input @ [0])"
    by (rule drop_eq_Suc)
  with assms(3) have "drop (Suc i) b' = drop (Suc i) (input @ [0])"
    by (simp only:)
  with assms(1,2,4) show ?thesis
    unfolding unread_def by simp
qed

text \<open>
  What holds at the head of every pass of the loop of \<open>gettok\<close> for the token that
  starts at \<open>t\<close>: every byte written so far is as C7 wants it.
\<close>

definition ghost_ok :: "byte list \<Rightarrow> byte list \<Rightarrow> nat \<Rightarrow> gt \<Rightarrow> origin list \<Rightarrow> bool" where
  "ghost_ok seps input t st sh \<longleftrightarrow>
     scan_inv st \<and> t \<le> ptr_o st \<and> length sh = length (buf st)
     \<and> unread input (buf st) (ptr_p st)
     \<and> (\<forall>j. t \<le> j \<and> j < ptr_o st \<longrightarrow> legit (cstring seps) input (buf st ! j) (sh ! j))"

lemma ghost_ok_pass:
  assumes ok: "ghost_ok seps input t st sh" and ag: "mode_agree seps input st"
    and nz: "rd (buf st) (ptr_p st) \<noteq> 0" and body: "loop_body seps st = (brk, st')"
  shows "ghost_ok seps input t (st'\<lparr>ptr_p := Suc (ptr_p st)\<rparr>) (mark st st' sh)"
    and "mode_before (cstring seps) input (Suc (ptr_p st)) = (if brk then Between else mode_of st')"
proof -
  from ok have inv: "scan_inv st" and t: "t \<le> ptr_o st" and len: "length sh = length (buf st)"
    and un: "unread input (buf st) (ptr_p st)"
    and old: "\<And>j. t \<le> j \<Longrightarrow> j < ptr_o st \<Longrightarrow> legit (cstring seps) input (buf st ! j) (sh ! j)"
    by (simp_all add: ghost_ok_def)
  note inp = unread_nonzero [OF un nz]
  show "mode_before (cstring seps) input (Suc (ptr_p st)) = (if brk then Between else mode_of st')"
    by (rule loop_body_mode_before [OF inv nz body inp ag])
  have bl: "length (buf st') = length (buf st)"
    using body loop_body_keeps(2) [of seps st st'] loop_body_break(2) [of seps st st']
    by (cases brk) simp_all
  have inv': "scan_inv (st'\<lparr>ptr_p := Suc (ptr_p st)\<rparr>)"
  proof (cases brk)
    case True
    with body have b: "loop_body seps st = (True, st')" by simp
    from loop_body_break(1) [OF b] have "st'\<lparr>ptr_p := Suc (ptr_p st)\<rparr> = st'"
      by (intro ptr_p_update_same) simp
    with scan_inv_break(1) [OF inv b] show ?thesis by simp
  next
    case False
    with body scan_inv_step [OF inv, of seps st'] loop_body_keeps(1) [of seps st st']
    show ?thesis by simp
  qed
  have un': "unread input (buf (st'\<lparr>ptr_p := Suc (ptr_p st)\<rparr>)) (ptr_p (st'\<lparr>ptr_p := Suc (ptr_p st)\<rparr>))"
    using unread_Suc [OF un inp(1) loop_body_suffix [OF inv body] bl] by simp
  have lg: "legit (cstring seps) input (buf st' ! j) (mark st st' sh ! j)"
    if "t \<le> j" "j < ptr_o st'" for j
  proof (cases "j < ptr_o st")
    case True
    with loop_body_below(2) [OF body] mark_frame(2) [OF body] old [OF that(1)] show ?thesis
      by simp
  next
    case False
    then have "ptr_o st \<le> j" by simp
    from loop_body_ghost [OF inv nz body inp ag len this that(2)] show ?thesis .
  qed
  from inv' t loop_body_below(1) [OF body] len bl mark_frame(1) [OF body] un' lg
  show "ghost_ok seps input t (st'\<lparr>ptr_p := Suc (ptr_p st)\<rparr>) (mark st st' sh)"
    by (simp add: ghost_ok_def)
qed

lemma gettok_loop_ghost:
  assumes "ghost_ok seps input t st sh" and "mode_agree seps input st"
  shows "ghost_ok seps input t (gettok_loop seps st) (gettok_loop_src seps st sh)
         \<and> (rd (buf (gettok_loop seps st)) (ptr_p (gettok_loop seps st)) \<noteq> 0 \<longrightarrow>
              mode_before (cstring seps) input (ptr_p (gettok_loop seps st)) = Between)
         \<and> (\<forall>j < ptr_o st. buf (gettok_loop seps st) ! j = buf st ! j
                            \<and> gettok_loop_src seps st sh ! j = sh ! j)"
  using assms
proof (induction st arbitrary: sh rule: gettok_loop_cases [where seps = seps])
  case (stop st)
  then show ?case by (simp add: gettok_loop_stop gettok_loop_src_stop)
next
  case (break st st')
  note p = ghost_ok_pass [OF break(3,4,1,2)]
  from loop_body_break(1) [OF break(2)] have pp: "ptr_p st' = Suc (ptr_p st)"
    by simp
  then have e: "st'\<lparr>ptr_p := Suc (ptr_p st)\<rparr> = st'"
    by (intro ptr_p_update_same) simp
  from p(1) have ok: "ghost_ok seps input t st' (mark st st' sh)"
    unfolding e .
  from p(2) have mb: "mode_before (cstring seps) input (ptr_p st') = Between"
    unfolding pp by simp
  from ok mb loop_body_below(2) [OF break(2)] mark_frame(2) [OF break(2)] show ?case
    by (simp add: gettok_loop_break [OF break(1,2)] gettok_loop_src_break [OF break(1,2)])
next
  case (step st st')
  let ?n = "st'\<lparr>ptr_p := ptr_p st' + 1\<rparr>"
  note p = ghost_ok_pass [OF step(4,5,1,2)]
  from loop_body_keeps(1) [OF step(2)] have e: "st'\<lparr>ptr_p := Suc (ptr_p st)\<rparr> = ?n"
    by simp
  from p(2) have ag: "mode_agree seps input ?n"
    by (simp add: mode_agree_def mode_of_def loop_body_keeps(1) [OF step(2)])
  from p(1) have ok: "ghost_ok seps input t ?n (mark st st' sh)"
    unfolding e .
  note ih = step(3) [OF ok ag]
  have "buf (gettok_loop seps ?n) ! j = buf st ! j
        \<and> gettok_loop_src seps ?n (mark st st' sh) ! j = sh ! j" if "j < ptr_o st" for j
  proof -
    from that loop_body_below(1) [OF step(2)] have "j < ptr_o ?n" by simp
    with ih loop_body_below(2) [OF step(2) that] mark_frame(2) [OF step(2) that] show ?thesis
      by simp
  qed
  with ih show ?case
    by (simp add: gettok_loop_step [OF step(1,2)] gettok_loop_src_step [OF step(1,2)])
qed


text \<open>The C string at \<open>t\<close> has \<open>n\<close> bytes, then the NUL that ends it.\<close>

definition token_at :: "byte list \<Rightarrow> nat \<Rightarrow> nat \<Rightarrow> bool" where
  "token_at b t n \<longleftrightarrow> t + n < length b \<and> (\<forall>j < n. b ! (t + j) \<noteq> 0) \<and> b ! (t + n) = 0"

lemma token_at_exists:
  assumes "t \<le> e" and "e < length b" and "b ! e = 0"
  shows "\<exists>n. token_at b t n \<and> t + n \<le> e"
proof -
  let ?P = "\<lambda>k. b ! (t + k) = 0"
  from assms(1,3) have ex: "?P (e - t)" by simp
  let ?n = "LEAST k. ?P k"
  from ex have z: "?P ?n" by (rule LeastI)
  from ex have le: "?n \<le> e - t" by (rule Least_le)
  have "b ! (t + j) \<noteq> 0" if "j < ?n" for j
    using not_less_Least [OF that] by simp
  with z le assms show ?thesis
    by (auto simp: token_at_def intro!: exI [of _ ?n])
qed

lemma cstring_token_at:
  assumes "token_at b t n"
  shows "cstring (drop t b) = take n (drop t b)"
  unfolding cstring_def
proof (rule takeWhile_eq_take_P_nth)
  fix i assume "i < n" "i < length (drop t b)"
  with assms show "drop t b ! i \<noteq> 0" by (simp add: token_at_def)
next
  assume "n < length (drop t b)"
  with assms show "\<not> drop t b ! n \<noteq> 0" by (simp add: token_at_def)
qed

text \<open>A token at \<open>t\<close> that ends before \<open>e\<close> and whose bytes are as C7 wants them.\<close>

definition good_token ::
  "byte list \<Rightarrow> byte list \<Rightarrow> byte list \<Rightarrow> origin list \<Rightarrow> nat \<Rightarrow> nat \<Rightarrow> bool" where
  "good_token seps input b sh t e \<longleftrightarrow>
     (\<exists>n. token_at b t n \<and> t + n \<le> e
          \<and> (\<forall>j < n. legit (cstring seps) input (b ! (t + j)) (sh ! (t + j))))"

text \<open>What holds of the buffer and the cursor between two calls of \<open>gettok\<close>.\<close>

definition between_ok :: "byte list \<Rightarrow> byte list \<Rightarrow> byte list \<Rightarrow> origin list \<Rightarrow> nat \<Rightarrow> bool" where
  "between_ok seps input b sh s \<longleftrightarrow>
     unread input b s \<and> length sh = length b
     \<and> (rd b s \<noteq> 0 \<longrightarrow> mode_before (cstring seps) input s = Between)"

lemma skip_spaces_between:
  "between_ok seps input b sh s \<Longrightarrow> between_ok seps input b sh (skip_spaces b s seps)"
proof (induction b s seps rule: skip_spaces.induct)
  case (1 b s seps)
  show ?case
  proof (cases "is_sep_space (rd b s) seps")
    case False
    with 1(2) show ?thesis by (subst skip_spaces.simps) simp
  next
    case True
    then have nz: "rd b s \<noteq> 0" and mem: "rd b s \<in> set (cstring seps)"
      by (simp_all add: is_sep_space_def strchr_def)
    from 1(2) have un: "unread input b s" and len: "length sh = length b"
      and mb: "mode_before (cstring seps) input s = Between"
      using nz by (simp_all add: between_ok_def)
    note inp = unread_nonzero [OF un nz]
    from unread_Suc [OF un inp(1)] have un': "unread input b (Suc s)" by simp
    from mode_before_Suc [OF inp(1), of "cstring seps"] mb inp(2) mem
    have "mode_before (cstring seps) input (Suc s) = Between" by simp
    with un' len have "between_ok seps input b sh (s + 1)"
      by (simp add: between_ok_def)
    from "1.IH" [OF True this] True show ?thesis
      by (subst skip_spaces.simps) simp
  qed
qed

lemma skip_spaces_zero: "rd b s = 0 \<Longrightarrow> skip_spaces b s seps = s"
  by (subst skip_spaces.simps) (simp add: is_sep_space_def)

text \<open>The state after the flush that follows the loop, and the origins after it.\<close>

definition flushed :: "gt \<Rightarrow> gt" where
  "flushed st =
     (if (base st = 8 \<and> escape st > 1) \<or> (base st = 16 \<and> escape st > 2)
      then (put (cval st) st)\<lparr>escape := 0\<rparr> else st)"

lemma gettok_finish_flushed:
  "gettok_finish t st =
     (if inquote (flushed st) \<noteq> 0 \<or> escape (flushed st) \<noteq> 0
      then \<lparr>rv = - 1, s_out = ptr_p (flushed st), tok_out = Unset, buf_out = buf (flushed st)\<rparr>
      else \<lparr>rv = 0, s_out = ptr_p (flushed st), tok_out = SetTok t,
            buf_out = (buf (flushed st))[ptr_o (flushed st) := 0]\<rparr>)"
  by (simp add: gettok_finish_def flushed_def Let_def)

lemma gettok_finish_outcome:
  shows "rv (gettok_finish t st) = 0 \<Longrightarrow>
           buf_out (gettok_finish t st) = (buf (flushed st))[ptr_o (flushed st) := 0]
           \<and> tok_out (gettok_finish t st) = SetTok t"
    and "rv (gettok_finish t st) \<noteq> 0 \<Longrightarrow> buf_out (gettok_finish t st) = buf (flushed st)"
    and "tok_out (gettok_finish t st) = SetTok t' \<Longrightarrow> rv (gettok_finish t st) = 0"
  by (auto simp: gettok_finish_flushed split: if_splits)

definition flushed_src :: "gt \<Rightarrow> origin list \<Rightarrow> origin list" where
  "flushed_src st sh =
     (if (base st = 8 \<and> escape st > 1) \<or> (base st = 16 \<and> escape st > 2)
      then sh[ptr_o st := Made] else sh)"

lemma flushed_frame:
  shows "ptr_p (flushed st) = ptr_p st" and "length (buf (flushed st)) = length (buf st)"
    and "length (flushed_src st sh) = length sh"
    and "ptr_o st \<le> ptr_o (flushed st)"
    and "k < ptr_o st \<Longrightarrow> buf (flushed st) ! k = buf st ! k \<and> flushed_src st sh ! k = sh ! k"
  by (simp_all add: flushed_def flushed_src_def put_def)

lemma flushed_inv:
  assumes "scan_inv st"
  shows "ptr_o (flushed st) \<le> ptr_p st"
    and "drop (ptr_p st) (buf (flushed st)) = drop (ptr_p st) (buf st)"
    and "ptr_o (flushed st) = ptr_p st \<Longrightarrow> flushed st = st"
  using assms by (auto simp: flushed_def put_def scan_inv_def drop_update_cancel)

lemma flushed_ghost:
  assumes "ghost_ok seps input t st sh" and "t \<le> k" and "k < ptr_o (flushed st)"
  shows "legit (cstring seps) input (buf (flushed st) ! k) (flushed_src st sh ! k)"
proof (cases "k < ptr_o st")
  case True
  with assms(1,2) flushed_frame(5) [OF True, where sh = sh] show ?thesis
    by (simp add: ghost_ok_def)
next
  case False
  with assms(3) have F: "(base st = 8 \<and> escape st > 1) \<or> (base st = 16 \<and> escape st > 2)"
    and k: "k = ptr_o st"
    by (auto simp: flushed_def put_def split: if_splits)
  from assms(1) have "ptr_o st + escape st \<le> ptr_p st" "ptr_p st < length (buf st)"
    "length sh = length (buf st)"
    by (simp_all add: ghost_ok_def scan_inv_def unread_def)
  with F have "ptr_o st < length sh" by auto
  with F show ?thesis
    by (simp add: k flushed_src_def legit_def)
qed

lemma gettok_ghost:
  assumes bo: "between_ok seps input b sh s"
  shows "length (gettok_src b sh s seps) = length sh"
    and "j < s \<Longrightarrow> buf_out (gettok b s seps) ! j = b ! j \<and> gettok_src b sh s seps ! j = sh ! j"
    and "rd b s = 0 \<Longrightarrow> buf_out (gettok b s seps) = b \<and> gettok_src b sh s seps = sh"
    and "rv (gettok b s seps) = 0 \<Longrightarrow>
           between_ok seps input (buf_out (gettok b s seps)) (gettok_src b sh s seps)
             (s_out (gettok b s seps))"
    and "tok_out (gettok b s seps) = SetTok t \<Longrightarrow>
           s \<le> t \<and> good_token seps input (buf_out (gettok b s seps)) (gettok_src b sh s seps) t
                      (s_out (gettok b s seps))"
proof -
  let ?t = "skip_spaces b s seps"
  let ?i = "\<lparr>ptr_p = ?t, ptr_o = ?t, inquote = 0, escape = 0, base = 8, cval = 0, buf = b\<rparr>"
  let ?e = "gettok_loop seps ?i"
  let ?sh1 = "gettok_loop_src seps ?i sh"
  let ?st1 = "flushed ?e"
  let ?sh2 = "flushed_src ?e ?sh1"
  let ?r = "gettok b s seps"
  let ?S = "cstring seps"
  note bt = skip_spaces_between [OF bo]
  have st: "s \<le> ?t" by (rule skip_spaces_ge)
  have all: "length (gettok_src b sh s seps) = length sh
    \<and> (j < s \<longrightarrow> buf_out ?r ! j = b ! j \<and> gettok_src b sh s seps ! j = sh ! j)
    \<and> (rd b s = 0 \<longrightarrow> buf_out ?r = b \<and> gettok_src b sh s seps = sh)
    \<and> (rv ?r = 0 \<longrightarrow> between_ok seps input (buf_out ?r) (gettok_src b sh s seps) (s_out ?r))
    \<and> (tok_out ?r = SetTok t \<longrightarrow>
           s \<le> t \<and> good_token seps input (buf_out ?r) (gettok_src b sh s seps) t (s_out ?r))"
  proof (cases "rd b ?t = 0")
    case True
    then have "?r = \<lparr>rv = 0, s_out = ?t, tok_out = SetNull, buf_out = b\<rparr>"
      and "gettok_src b sh s seps = sh"
      by (simp_all add: gettok_def gettok_src_def)
    with bt show ?thesis by simp
  next
    case nz: False
    have rs: "rd b s \<noteq> 0"
    proof
      assume "rd b s = 0"
      with skip_spaces_zero [of b s seps] nz show False by simp
    qed
    have r: "?r = gettok_finish ?t ?e" and g: "gettok_src b sh s seps = ?sh2"
      using nz by (simp_all add: gettok_def gettok_src_def flushed_src_def Let_def)
    from bt nz have un: "unread input b ?t" and len: "length sh = length b"
      and mb: "mode_before ?S input ?t = Between"
      by (simp_all add: between_ok_def)
    have ok0: "ghost_ok seps input ?t ?i sh"
      using un len by (auto simp: ghost_ok_def scan_inv_init)
    have ag0: "mode_agree seps input ?i"
      using mb skip_spaces_stops [of b s seps]
      by (simp add: mode_agree_def mode_of_def quoting_of_def escaping_of_def)
    from gettok_loop_ghost [OF ok0 ag0]
    have ok: "ghost_ok seps input ?t ?e ?sh1"
      and mbe: "rd (buf ?e) (ptr_p ?e) \<noteq> 0 \<Longrightarrow> mode_before ?S input (ptr_p ?e) = Between"
      and fr: "\<And>k. k < ?t \<Longrightarrow> buf ?e ! k = b ! k \<and> ?sh1 ! k = sh ! k"
      by simp_all
    from ok have inv: "scan_inv ?e" and to: "?t \<le> ptr_o ?e" and l1: "length ?sh1 = length (buf ?e)"
      and une: "unread input (buf ?e) (ptr_p ?e)"
      by (simp_all add: ghost_ok_def)
    from une have pl: "ptr_p ?e < length (buf ?e)"
      by (simp add: unread_def)
    from gettok_loop_frame [of seps ?i] have lbe: "length (buf ?e) = length b" by simp
    note ex = gettok_loop_exit2 [OF scan_inv_init, of seps ?t b]
    note ff = flushed_frame [where st = ?e] and fi = flushed_inv [OF inv]
    let ?of = "ptr_o ?st1"
    have ofp: "?of \<le> ptr_p ?e" by (rule fi(1))
    from to ff(4) have tof: "?t \<le> ?of" by simp
    have l2: "length ?sh2 = length sh"
      using l1 lbe len by (simp add: ff(3))
    have fr1: "buf ?st1 ! k = b ! k \<and> ?sh2 ! k = sh ! k" if "k < ?t" for k
    proof -
      from that to have "k < ptr_o ?e" by simp
      from ff(5) [OF this, where sh = ?sh1] fr [OF that] show ?thesis by simp
    qed
    have fin: "rv ?r = 0 \<Longrightarrow> buf_out ?r = (buf ?st1)[?of := 0] \<and> tok_out ?r = SetTok ?t"
      and fin': "rv ?r \<noteq> 0 \<Longrightarrow> buf_out ?r = buf ?st1"
      and tk: "tok_out ?r = SetTok t \<Longrightarrow> rv ?r = 0"
      unfolding r using gettok_finish_outcome [of ?t ?e] by blast+
    have so: "s_out ?r = ptr_p ?e"
      unfolding r by (simp add: gettok_finish_frame)
    have 2: "buf_out ?r ! j = b ! j \<and> gettok_src b sh s seps ! j = sh ! j" if "j < s"
    proof -
      from that st have jt: "j < ?t" by simp
      with tof have "j \<noteq> ?of" by simp
      with fr1 [OF jt] fin fin' show ?thesis
        unfolding g by (cases "rv ?r = 0") simp_all
    qed
    have dr2: "drop (ptr_p ?e) ((buf ?st1)[?of := 0]) = drop (ptr_p ?e) (buf ?e)"
    proof (cases "?of < ptr_p ?e")
      case True
      with fi(2) show ?thesis by (simp add: drop_update_cancel)
    next
      case False
      with ofp have eq: "?of = ptr_p ?e" by simp
      from fi(3) [OF eq] have same: "?st1 = ?e" .
      from eq same have "ptr_o ?e = ptr_p ?e" by simp
      with ex have "rd (buf ?e) (ptr_p ?e) = 0" by auto
      with pl have "buf ?e ! ptr_p ?e = 0" by (simp add: rd_def)
      with eq pl have "(buf ?e)[ptr_p ?e := 0] = buf ?e"
        by (simp add: list_update_same_conv)
      with eq same show ?thesis by simp
    qed
    have 4: "between_ok seps input (buf_out ?r) (gettok_src b sh s seps) (s_out ?r)" if "rv ?r = 0"
    proof -
      from fin [OF that] have bo': "buf_out ?r = (buf ?st1)[?of := 0]" by simp
      from une dr2 ff(2) have un': "unread input (buf_out ?r) (ptr_p ?e)"
        unfolding bo' by (simp add: unread_def)
      from unread_rd [OF un'] unread_rd [OF une]
      have "rd (buf_out ?r) (ptr_p ?e) = rd (buf ?e) (ptr_p ?e)" by simp
      with mbe un' l2 len lbe ff(2) show ?thesis
        unfolding g so by (simp add: between_ok_def bo')
    qed
    have 5: "s \<le> t \<and> good_token seps input (buf_out ?r) (gettok_src b sh s seps) t (s_out ?r)"
      if "tok_out ?r = SetTok t"
    proof -
      from tk [OF that] have rv0: "rv ?r = 0" .
      from fin [OF rv0] that have bo': "buf_out ?r = (buf ?st1)[?of := 0]" and tt: "t = ?t"
        by simp_all
      from ofp pl ff(2) have ofl: "?of < length (buf ?st1)" by simp
      then have z: "buf_out ?r ! ?of = 0" and lo: "?of < length (buf_out ?r)"
        unfolding bo' by simp_all
      from token_at_exists [OF tof lo z] obtain n where
        n: "token_at (buf_out ?r) ?t n" "?t + n \<le> ?of" by blast
      have "legit ?S input (buf_out ?r ! (?t + k)) (?sh2 ! (?t + k))" if "k < n" for k
      proof -
        from that n(2) have lt: "?t + k < ?of" by simp
        from flushed_ghost [OF ok _ lt] lt show ?thesis
          unfolding bo' by simp
      qed
      with n ofp st show ?thesis
        unfolding g so tt good_token_def by (intro conjI exI [of _ n]) simp_all
    qed
    from l2 2 rs 4 5 show ?thesis
      unfolding g by blast
  qed
  from all show "length (gettok_src b sh s seps) = length sh"
    and "j < s \<Longrightarrow> buf_out (gettok b s seps) ! j = b ! j \<and> gettok_src b sh s seps ! j = sh ! j"
    and "rd b s = 0 \<Longrightarrow> buf_out (gettok b s seps) = b \<and> gettok_src b sh s seps = sh"
    and "rv (gettok b s seps) = 0 \<Longrightarrow>
           between_ok seps input (buf_out (gettok b s seps)) (gettok_src b sh s seps)
             (s_out (gettok b s seps))"
    and "tok_out (gettok b s seps) = SetTok t \<Longrightarrow>
           s \<le> t \<and> good_token seps input (buf_out (gettok b s seps)) (gettok_src b sh s seps) t
                      (s_out (gettok b s seps))"
    by blast+
qed


lemma good_token_stable:
  assumes gt: "good_token seps input b sh t e"
    and len: "length b' = length b"
    and fr: "\<And>j. j < e \<Longrightarrow> b' ! j = b ! j \<and> sh' ! j = sh ! j"
    and z: "rd b e = 0 \<Longrightarrow> b' = b \<and> sh' = sh"
    and le: "e \<le> e'"
  shows "good_token seps input b' sh' t e'"
proof (cases "rd b e = 0")
  case True
  with z gt le show ?thesis
    by (auto simp: good_token_def)
next
  case False
  from gt obtain n where n: "token_at b t n" "t + n \<le> e"
    and lg: "\<And>j. j < n \<Longrightarrow> legit (cstring seps) input (b ! (t + j)) (sh ! (t + j))"
    by (auto simp: good_token_def)
  from n(1) have "rd b (t + n) = 0"
    by (simp add: token_at_def rd_def)
  with False n(2) have lt: "t + n < e"
    by (cases "t + n = e") auto
  from n(1) lt fr len have "token_at b' t n"
    by (simp add: token_at_def)
  moreover have "legit (cstring seps) input (b' ! (t + j)) (sh' ! (t + j))" if "j < n" for j
    using lg [OF that] fr [of "t + j"] lt that by simp
  ultimately show ?thesis
    using n(2) le by (auto simp: good_token_def)
qed

lemma owned_lookup:
  assumes "owned h0 orig_s st"
  shows "strs (mem st) = (orig_s, chars (mem st) orig_s) # strs h0"
    and "arrs (mem st) = (argv st, ptrs (mem st) (argv st)) # arrs h0"
  using assms by (auto simp: owned_def chars_def ptrs_def)

lemma ptrs_set_ptr:
  assumes "owned h0 orig_s st"
  shows "ptrs (set_ptr (argv st) i v (mem st)) (argv st) = (ptrs (mem st) (argv st))[i := v]"
  using assms by (auto simp: owned_def ptrs_def set_ptr_def)

lemma ptrs_set_chars: "ptrs (set_chars a b h) x = ptrs h x"
  by (simp add: ptrs_def set_chars_def)

lemma chars_set_ptr: "chars (set_ptr a i v h) x = chars h x"
  by (simp add: chars_def set_ptr_def)

lemma grow_argv_ptrs:
  assumes ow: "owned h0 orig_s st" and g: "grow_argv st = (False, st1)"
    and len: "length (ptrs (mem st) (argv st)) = args st" and room: "argc st + 2 \<le> args st"
  shows "length (ptrs (mem st1) (argv st1)) = args st1" and "argc st + 3 \<le> args st1"
    and "k < args st \<Longrightarrow> ptrs (mem st1) (argv st1) ! k = ptrs (mem st) (argv st) ! k"
proof -
  have all: "length (ptrs (mem st1) (argv st1)) = args st1 \<and> argc st + 3 \<le> args st1
     \<and> (k < args st \<longrightarrow> ptrs (mem st1) (argv st1) ! k = ptrs (mem st) (argv st) ! k)"
  proof (cases "argc st \<ge> args st - 2")
    case False
    with g have "st1 = st" by (simp add: grow_argv_def)
    with False len show ?thesis by simp
  next
    case True
    obtain f h' where nf: "next_fails (mem st) = (f, h')"
      by (cases "next_fails (mem st)")
    with next_fails_frame [of "mem st"] have fr: "arrs h' = arrs (mem st)"
      by simp
    from g True nf have nofl: "\<not> f"
      by (cases f) (simp_all add: grow_argv_def realloc_ptrs_def)
    let ?h1 = "free_ptrs (argv st) h'"
    let ?old = "ptrs h' (argv st)"
    let ?new = "take (args st + 10) ?old @ replicate (args st + 10 - length ?old) Uninit"
    from fr have old: "?old = ptrs (mem st) (argv st)"
      by (simp add: ptrs_def)
    from g True nf nofl
    have st1: "st1 = st\<lparr>mem := ?h1\<lparr>arrs := (fresh ?h1, ?new) # arrs ?h1\<rparr>,
                    argv := fresh ?h1, args := args st + 10\<rparr>"
      by (simp add: grow_argv_def realloc_ptrs_def Let_def)
    then have p: "ptrs (mem st1) (argv st1) = ?new" and a: "args st1 = args st + 10"
      by (simp_all add: ptrs_def)
    from len old have "?new = ptrs (mem st) (argv st) @ replicate 10 Uninit"
      by simp
    with p a len room show ?thesis
      by (simp add: nth_append)
  qed
  from all show "length (ptrs (mem st1) (argv st1)) = args st1" and "argc st + 3 \<le> args st1"
    and "k < args st \<Longrightarrow> ptrs (mem st1) (argv st1) ! k = ptrs (mem st) (argv st) ! k"
    by simp_all
qed

text \<open>
  What holds after every call of \<open>gettok\<close> in \<open>str_to_argv\<close>: the array has room for
  the two trailing cells, its first \<open>argc\<close> cells point at good tokens, and so does
  \<open>tok\<close> while the loop goes on.
\<close>

definition run_ok ::
  "byte list \<Rightarrow> byte list \<Rightarrow> nat \<Rightarrow> heap \<Rightarrow> sta \<Rightarrow> origin list \<Rightarrow> bool" where
  "run_ok seps input orig_s h0 st sh \<longleftrightarrow>
     owned h0 orig_s st
     \<and> length (ptrs (mem st) (argv st)) = args st \<and> argc st + 2 \<le> args st
     \<and> (err st = 0 \<longrightarrow> between_ok seps input (chars (mem st) orig_s) sh (s_ptr st))
     \<and> (\<forall>k < argc st. \<exists>t. ptrs (mem st) (argv st) ! k = Ref orig_s t
            \<and> good_token seps input (chars (mem st) orig_s) sh t (s_ptr st))
     \<and> (err st = 0 \<and> tok st \<noteq> Null \<longrightarrow>
          (\<exists>t. tok st = Ref orig_s t
             \<and> good_token seps input (chars (mem st) orig_s) sh t (s_ptr st)))"

lemma call_gettok_run_ok:
  assumes ow: "owned h0 orig_s st"
    and len: "length (ptrs (mem st) (argv st)) = args st" and room: "argc st + 2 \<le> args st"
    and bo: "between_ok seps input (chars (mem st) orig_s) sh (s_ptr st)"
    and toks: "\<And>k. k < argc st \<Longrightarrow> \<exists>t. ptrs (mem st) (argv st) ! k = Ref orig_s t
            \<and> good_token seps input (chars (mem st) orig_s) sh t (s_ptr st)"
  shows "run_ok seps input orig_s h0 (call_gettok seps orig_s st)
           (gettok_src (chars (mem st) orig_s) sh (s_ptr st) seps)"
proof -
  let ?b = "chars (mem st) orig_s"
  let ?r = "gettok ?b (s_ptr st) seps"
  let ?sh' = "gettok_src ?b sh (s_ptr st) seps"
  let ?st' = "call_gettok seps orig_s st"
  have e: "err ?st' = rv ?r" and s: "s_ptr ?st' = s_out ?r"
    and c: "chars (mem ?st') orig_s = buf_out ?r"
    and t: "tok ?st' = (case tok_out ?r of Unset \<Rightarrow> tok st | SetNull \<Rightarrow> Null
                    | SetTok t \<Rightarrow> Ref orig_s t)"
    and p: "ptrs (mem ?st') (argv ?st') = ptrs (mem st) (argv st)"
    and a: "argc ?st' = argc st" "args ?st' = args st"
    using owned_chars [OF ow] by (simp_all add: call_gettok_def Let_def ptrs_set_chars)
  note gg = gettok_ghost [OF bo]
  have o': "owned h0 orig_s ?st'"
    by (rule owned_call_gettok [OF ow])
  have 1: "between_ok seps input (chars (mem ?st') orig_s) ?sh' (s_ptr ?st')" if "err ?st' = 0"
    using that gg(4) e s c by simp
  have stab: "good_token seps input (buf_out ?r) ?sh' u (s_out ?r)"
    if "good_token seps input ?b sh u (s_ptr st)" for u
    using that
  proof (rule good_token_stable)
    show "length (buf_out ?r) = length ?b" by (rule gettok_frame(1))
    show "buf_out ?r ! j = ?b ! j \<and> ?sh' ! j = sh ! j" if "j < s_ptr st" for j
      using that by (rule gg(2))
    show "buf_out ?r = ?b \<and> ?sh' = sh" if "rd ?b (s_ptr st) = 0"
      using that by (rule gg(3))
    show "s_ptr st \<le> s_out ?r" by (rule gettok_frame(2))
  qed
  have 2: "\<exists>u. ptrs (mem ?st') (argv ?st') ! k = Ref orig_s u
            \<and> good_token seps input (chars (mem ?st') orig_s) ?sh' u (s_ptr ?st')"
    if "k < argc ?st'" for k
  proof -
    from that a toks [of k] obtain u where "ptrs (mem st) (argv st) ! k = Ref orig_s u"
      and "good_token seps input ?b sh u (s_ptr st)" by auto
    with stab [of u] show ?thesis
      unfolding p c s by blast
  qed
  have 3: "\<exists>u. tok ?st' = Ref orig_s u
             \<and> good_token seps input (chars (mem ?st') orig_s) ?sh' u (s_ptr ?st')"
    if "err ?st' = 0" "tok ?st' \<noteq> Null"
  proof -
    from that(1) e gettok_frame(3) [of ?b "s_ptr st" seps] have "tok_out ?r \<noteq> Unset"
      by simp
    with that(2) t obtain u where u: "tok_out ?r = SetTok u"
      by (cases "tok_out ?r") simp_all
    with t have "tok ?st' = Ref orig_s u" by simp
    with gg(5) [OF u] show ?thesis
      unfolding c s by blast
  qed
  from o' len room 1 2 3 show ?thesis
    unfolding run_ok_def p a by blast
qed

lemma while_body_run_ok:
  assumes ok: "run_ok seps input orig_s h0 st sh" and g: "tok st \<noteq> Null" "err st = 0"
    and wb: "while_body seps orig_s st = (False, st')"
  shows "run_ok seps input orig_s h0 st' (gettok_src (chars (mem st) orig_s) sh (s_ptr st) seps)"
proof -
  let ?b = "chars (mem st) orig_s"
  from ok g have ow: "owned h0 orig_s st"
    and len: "length (ptrs (mem st) (argv st)) = args st" and room: "argc st + 2 \<le> args st"
    and bo: "between_ok seps input ?b sh (s_ptr st)"
    and toks: "\<And>k. k < argc st \<Longrightarrow> \<exists>t. ptrs (mem st) (argv st) ! k = Ref orig_s t
            \<and> good_token seps input ?b sh t (s_ptr st)"
    and pend: "\<exists>t. tok st = Ref orig_s t \<and> good_token seps input ?b sh t (s_ptr st)"
    by (simp_all add: run_ok_def)
  obtain j1 st1 where gr: "grow_argv st = (j1, st1)"
    by (cases "grow_argv st")
  from wb gr have nj: "\<not> j1" by (cases j1) (simp_all add: while_body_def)
  with gr have gr: "grow_argv st = (False, st1)" by simp
  let ?st2 = "st1\<lparr>mem := set_ptr (argv st1) (argc st1) (tok st1) (mem st1), argc := argc st1 + 1\<rparr>"
  from wb gr have st': "st' = call_gettok seps orig_s ?st2"
    by (simp add: while_body_def)
  note fr = grow_argv_frame [OF gr]
  note gp = grow_argv_ptrs [OF ow gr len room]
  from owned_grow_argv [OF ow gr] have o1: "owned h0 orig_s st1" .
  from owned_set_ptr [OF o1, of "argc st1" "tok st1"] have o2: "owned h0 orig_s ?st2"
    by (simp add: owned_def)
  have c2: "chars (mem ?st2) orig_s = ?b" and s2: "s_ptr ?st2 = s_ptr st"
    using fr by (simp_all add: chars_def strs_set_ptr)
  have p2: "ptrs (mem ?st2) (argv ?st2) = (ptrs (mem st1) (argv st1))[argc st := tok st]"
    using ptrs_set_ptr [OF o1, of "argc st1" "tok st1"] fr by simp
  have l2: "length (ptrs (mem ?st2) (argv ?st2)) = args ?st2"
    unfolding p2 using gp(1) by simp
  have r2: "argc ?st2 + 2 \<le> args ?st2"
    using gp(2) fr by simp
  have t2: "\<exists>t. ptrs (mem ?st2) (argv ?st2) ! k = Ref orig_s t
            \<and> good_token seps input (chars (mem ?st2) orig_s) sh t (s_ptr ?st2)"
    if "k < argc ?st2" for k
  proof (cases "k = argc st")
    case True
    from gp(1,2) have "argc st < length (ptrs (mem st1) (argv st1))" by simp
    with True pend show ?thesis
      unfolding p2 c2 s2 by simp
  next
    case False
    with that fr have k: "k < argc st" by simp
    with room have "k < args st" by simp
    from gp(3) [OF this] toks [OF k] False show ?thesis
      unfolding p2 c2 s2 by simp
  qed
  from bo have b2: "between_ok seps input (chars (mem ?st2) orig_s) sh (s_ptr ?st2)"
    unfolding c2 s2 .
  from call_gettok_run_ok [OF o2 l2 r2 b2 t2] show ?thesis
    unfolding st' c2 s2 by simp
qed

lemma str_to_argv_loop_src_done:
  "\<not> (tok st \<noteq> Null \<and> err st = 0) \<Longrightarrow> str_to_argv_loop_src seps orig_s st sh = sh"
  by (subst str_to_argv_loop_src.simps) auto

lemma str_to_argv_loop_src_again:
  "tok st \<noteq> Null \<Longrightarrow> err st = 0 \<Longrightarrow> while_body seps orig_s st = (False, st') \<Longrightarrow>
   str_to_argv_loop_src seps orig_s st sh
   = str_to_argv_loop_src seps orig_s st' (gettok_src (chars (mem st) orig_s) sh (s_ptr st) seps)"
  by (subst str_to_argv_loop_src.simps) simp

lemma str_to_argv_loop_run_ok:
  assumes "run_ok seps input orig_s h0 st sh"
  shows "\<not> fst (str_to_argv_loop seps orig_s st) \<longrightarrow>
           run_ok seps input orig_s h0 (snd (str_to_argv_loop seps orig_s st))
             (str_to_argv_loop_src seps orig_s st sh)"
  using assms
proof (induction st arbitrary: sh rule: str_to_argv_loop_cases [where seps = seps and orig_s = orig_s])
  case (finished st)
  then show ?case by (simp add: str_to_argv_loop_done str_to_argv_loop_src_done)
next
  case (jump st st')
  then show ?case by (simp add: str_to_argv_loop_jump)
next
  case (again st st')
  from while_body_run_ok [OF again(5,1,2,3)] again(4) show ?case
    by (simp add: str_to_argv_loop_again [OF again(1,2,3)]
        str_to_argv_loop_src_again [OF again(1,2,3)])
qed


text \<open>
  The origins of the cells of the working buffer when \<open>str_to_argv\<close> is done. Before the
  first call of \<open>gettok\<close> every cell is the input byte at its own index.
\<close>

definition provenance :: "byte list \<Rightarrow> byte list option \<Rightarrow> heap \<Rightarrow> origin list" where
  "provenance ins seps h =
     (case strdup ins h of
        (None, h1) \<Rightarrow> []
      | (Some orig_s, h1) \<Rightarrow>
          (let seps' = (case seps of None \<Rightarrow> default_seps | Some x \<Rightarrow> x)
           in case malloc_ptrs 10 h1 of
                (None, h2) \<Rightarrow> []
              | (Some a, h2) \<Rightarrow>
                  (let st = \<lparr>mem = h2, s_ptr = 0, argv = a, tok = Uninit,
                             argc = 0, args = 10, err = 0\<rparr>;
                       b = chars h2 orig_s
                   in str_to_argv_loop_src seps' orig_s (call_gettok seps' orig_s st)
                        (gettok_src b (map From [0..<length b]) 0 seps'))))"

text \<open>The bytes of the C string at a pointer, each with its origin.\<close>

definition tagged :: "heap \<Rightarrow> origin list \<Rightarrow> ptr \<Rightarrow> (byte \<times> origin) list" where
  "tagged h sh q =
     (case q of Ref a off \<Rightarrow> zip (cstring (drop off (chars h a))) (drop off sh) | _ \<Rightarrow> [])"

definition tagged_tokens :: "sta_result \<Rightarrow> origin list \<Rightarrow> (byte \<times> origin) list list" where
  "tagged_tokens r sh =
     (case argv_out r of
        None \<Rightarrow> []
      | Some a \<Rightarrow> map (tagged (mem_out r) sh) (take (nat (argc_out r)) (ptrs (mem_out r) a)))"

lemma str_to_argv_loop_jump_err:
  "fst (str_to_argv_loop seps orig_s st) \<longrightarrow> err (snd (str_to_argv_loop seps orig_s st)) = ENOMEM"
proof (induction st rule: str_to_argv_loop_cases [where seps = seps and orig_s = orig_s])
  case (finished st)
  then show ?case by (simp add: str_to_argv_loop_done)
next
  case (jump st st')
  obtain j1 st1 where g: "grow_argv st = (j1, st1)"
    by (cases "grow_argv st")
  with jump(3) have "j1" "st' = st1"
    by (cases j1; simp add: while_body_def)+
  with grow_argv_err [OF g] show ?case
    by (simp add: str_to_argv_loop_jump [OF jump])
next
  case (again st st')
  then show ?case by (simp add: str_to_argv_loop_again)
qed

lemma good_token_tagged:
  assumes "good_token seps input b sh t e" and "length sh = length b" and "chars h a = b"
  shows "map fst (tagged h sh (Ref a t)) = string_at h (Ref a t)"
    and "\<forall>(c, g) \<in> set (tagged h sh (Ref a t)). legit (cstring seps) input c g"
proof -
  from assms(1) obtain n where n: "token_at b t n"
    and lg: "\<And>j. j < n \<Longrightarrow> legit (cstring seps) input (b ! (t + j)) (sh ! (t + j))"
    by (auto simp: good_token_def)
  from n have tn: "t + n < length b" by (simp add: token_at_def)
  note cs = cstring_token_at [OF n]
  from tn assms(2) have l: "length (take n (drop t b)) \<le> length (drop t sh)"
    by simp
  have tg: "tagged h sh (Ref a t) = zip (take n (drop t b)) (drop t sh)"
    by (simp add: tagged_def assms(3) cs)
  from l show "map fst (tagged h sh (Ref a t)) = string_at h (Ref a t)"
    unfolding tg by (simp add: string_at_def assms(3) cs map_fst_zip_take min_def)
  show "\<forall>(c, g) \<in> set (tagged h sh (Ref a t)). legit (cstring seps) input c g"
  proof (clarify)
    fix c g assume "(c, g) \<in> set (tagged h sh (Ref a t))"
    then obtain j where j: "j < length (zip (take n (drop t b)) (drop t sh))"
      and cg: "(c, g) = zip (take n (drop t b)) (drop t sh) ! j"
      unfolding tg by (metis in_set_conv_nth)
    from j tn assms(2) have jn: "j < n" by simp
    with cg tn assms(2) have "c = b ! (t + j)" "g = sh ! (t + j)"
      by simp_all
    with lg [OF jn] show "legit (cstring seps) input c g" by simp
  qed
qed

section \<open>Digit accumulation\<close>

text \<open>
  Claim C1. Each digit taken into an escape updates the accumulated value to
  \<open>value * base + digit\<close>, where the digit is the numeric value of the character, the hex
  letters counting 10 to 15. The source subtracts \<open>'A'\<close> or \<open>'a'\<close> from a hex letter
  without adding 10, and sends \<open>8\<close> and \<open>9\<close> through the \<open>'a'\<close> branch, since it
  tests \<open>isodigit\<close> there: after the digit \<open>1\<close>, the letter \<open>a\<close> (or \<open>A\<close>) gives 16
  where the claim gives 26, and \<open>9\<close> gives 232 where the claim gives 25. So
  \<open>\x1a\<close> parses to the byte 16 and \<open>\x19\<close> to the byte 232.
\<close>

theorem hex_letters_lose_ten:
  "accumulate 1 16 0x61 = 16
   \<and> accumulate 1 16 0x41 = 16
   \<and> accumulate 1 16 0x39 = 232
   \<and> tokens (str_to_argv [0x5C, 0x78, 0x31, 0x61] 0 None None empty_heap) = [[16]]
   \<and> tokens (str_to_argv [0x5C, 0x78, 0x31, 0x39] 0 None None empty_heap) = [[232]]"
proof -
  have "accumulate 1 16 0x61 = 16" "accumulate 1 16 0x41 = 16" "accumulate 1 16 0x39 = 232"
    by (simp_all add: accumulate_def isodigit_def isdigit_def isupper_def)
  moreover have "tokens (str_to_argv [0x5C, 0x78, 0x31, 0x61] 0 None None empty_heap) = [[16]]"
    by code_simp
  moreover have "tokens (str_to_argv [0x5C, 0x78, 0x31, 0x39] 0 None None empty_heap) = [[232]]"
    by code_simp
  ultimately show ?thesis by blast
qed

section \<open>Malformed input\<close>

text \<open>
  Claim C2. \<open>str_to_argv\<close> returns -1 only if the input, read by the rules of the
  specification, ends inside a quote or in an escape that has no digit where one is
  required, and then it leaves \<open>*r_argc\<close> and \<open>*r_argv\<close> alone; when no allocation
  fails it returns -1 on every such input. A call of \<open>gettok\<close> that returns -1 sets no
  token and leaves the cursor on the terminator: the failure is found at the end of the
  buffer only.
\<close>

theorem malformed_input_iff:
  "(ret (str_to_argv ins r_argc r_argv seps h) = - 1 \<longrightarrow>
      malformed (spec_mode (cstring (case seps of None \<Rightarrow> default_seps | Some x \<Rightarrow> x)) (cstring ins))
      \<and> argc_out (str_to_argv ins r_argc r_argv seps h) = r_argc
      \<and> argv_out (str_to_argv ins r_argc r_argv seps h) = r_argv)
   \<and> (True \<notin> set (fails h) \<longrightarrow>
      malformed (spec_mode (cstring (case seps of None \<Rightarrow> default_seps | Some x \<Rightarrow> x)) (cstring ins)) \<longrightarrow>
      ret (str_to_argv ins r_argc r_argv seps h) = - 1)
   \<and> (rv (gettok b s sp) = - 1 \<longrightarrow>
      tok_out (gettok b s sp) = Unset
      \<and> rd (buf_out (gettok b s sp)) (s_out (gettok b s sp)) = 0)"
proof -
  let ?seps = "case seps of None \<Rightarrow> default_seps | Some x \<Rightarrow> x"
  let ?M = "malformed (spec_mode (cstring ?seps) (cstring ins))"
  let ?R = "str_to_argv ins r_argc r_argv seps h"
  have g: "rv (gettok b s sp) = - 1 \<longrightarrow>
      tok_out (gettok b s sp) = Unset
      \<and> rd (buf_out (gettok b s sp)) (s_out (gettok b s sp)) = 0"
    using gettok_mode(1) [of b s sp] gettok_frame(3) [of b s sp] by auto
  have "(ret ?R = - 1 \<longrightarrow> ?M \<and> argc_out ?R = r_argc \<and> argv_out ?R = r_argv)
        \<and> (True \<notin> set (fails h) \<longrightarrow> ?M \<longrightarrow> ret ?R = - 1)"
  proof (cases rule: strdup_cases [of ins h])
    case (1 h1)
    with strdup_nofail(1) [of h ins] show ?thesis
      by (auto simp: str_to_argv_def ENOMEM_def nofail_def)
  next
    case sd: (2 orig_s h1)
    from strdup_nofail(2) [of h ins] sd(1) have n1: "nofail h \<Longrightarrow> nofail h1"
      by simp
    show ?thesis
    proof (cases rule: malloc_ptrs_cases [of 10 h1])
      case (1 h2)
      with sd malloc_ptrs_nofail(1) [of h1 10] n1 show ?thesis
        by (auto simp: str_to_argv_def ENOMEM_def nofail_def)
    next
      case m: (2 a h2)
      from malloc_ptrs_nofail(2) [of h1 10] m(1) n1 have n2: "nofail h \<Longrightarrow> nofail h2"
        by simp
      let ?st2 = "run_loop ?seps orig_s a h2"
      from sd m have pre: "strs h2 = (orig_s, cstring ins @ [0]) # strs h"
        "arrs h2 = (a, replicate 10 Uninit) # arrs h"
        "orig_s \<notin> fst ` set (strs h)" "a \<notin> fst ` set (arrs h)"
        by simp_all
      note rl = run_loop_tracks [OF pre, of ?seps, unfolded rest_mode_start]
      have r: "ret ?R = err ?st2" and ac: "err ?st2 \<noteq> 0 \<Longrightarrow> argc_out ?R = r_argc"
        and av: "err ?st2 \<noteq> 0 \<Longrightarrow> argv_out ?R = r_argv"
        unfolding str_to_argv_unfold [OF sd(1) m(1)] by (simp_all add: Let_def)
      from rl r ac av n2 show ?thesis
        by (auto simp: nofail_def)
    qed
  qed
  with g show ?thesis by blast
qed


text \<open>
  A trailing backslash (bytes 61 5C), an unterminated quote (bytes 22 61), and a call
  of \<open>gettok\<close> on the buffer \<open>a\x\<close> (bytes 61 5C 78 and the terminator).
\<close>

theorem malformed_input_iff_witness:
  "ret (str_to_argv [0x61, 0x5C] 7 None None empty_heap) = - 1
   \<and> malformed (spec_mode (cstring default_seps) (cstring [0x61, 0x5C]))
   \<and> True \<notin> set (fails empty_heap)
   \<and> malformed (spec_mode (cstring default_seps) (cstring [0x22, 0x61]))
   \<and> ret (str_to_argv [0x22, 0x61] 7 None None empty_heap) = - 1
   \<and> rv (gettok [0x61, 0x5C, 0x78, 0] 0 default_seps) = - 1
   \<and> tok_out (gettok [0x61, 0x5C, 0x78, 0] 0 default_seps) = Unset"
proof -
  have a: "ret (str_to_argv [0x61, 0x5C] 7 None None empty_heap) = - 1"
    by code_simp
  have nf: "True \<notin> set (fails empty_heap)"
    by (simp add: empty_heap_def)
  have m: "malformed (spec_mode (cstring (case None of None \<Rightarrow> default_seps | Some x \<Rightarrow> x))
             (cstring [0x22, 0x61]))"
    by code_simp
  have g: "rv (gettok [0x61, 0x5C, 0x78, 0] 0 default_seps) = - 1"
    by code_simp
  note th1 = malformed_input_iff [of "[0x61, 0x5C]" 7 None None empty_heap
      "[0x61, 0x5C, 0x78, 0]" 0 default_seps]
  note th2 = malformed_input_iff [of "[0x22, 0x61]" 7 None None empty_heap
      "[0x61, 0x5C, 0x78, 0]" 0 default_seps]
  from th1 [THEN conjunct1, THEN mp, OF a]
  have 1: "malformed (spec_mode (cstring default_seps) (cstring [0x61, 0x5C]))"
    by simp
  from th2 [THEN conjunct2, THEN conjunct1, THEN mp, OF nf, THEN mp, OF m]
  have 2: "ret (str_to_argv [0x22, 0x61] 7 None None empty_heap) = - 1" .
  from th1 [THEN conjunct2, THEN conjunct2, THEN mp, OF g]
  have 3: "tok_out (gettok [0x61, 0x5C, 0x78, 0] 0 default_seps) = Unset"
    by (rule conjunct1)
  from m have m': "malformed (spec_mode (cstring default_seps) (cstring [0x22, 0x61]))"
    by simp
  from a 1 nf m' 2 g 3 show ?thesis
    by (intro conjI)
qed

section \<open>All or nothing\<close>

text \<open>
  Claim C3. When \<open>str_to_argv\<close> returns a code other than 0, the code is \<open>ENOMEM\<close> or
  -1, the live character buffers and the live pointer arrays are exactly those that were
  live before the call (the working buffer and the token array have been released, the
  array also when \<open>realloc\<close> had moved it), and the caller's \<open>*r_argc\<close> and \<open>*r_argv\<close>
  hold what they held before the call.
\<close>

theorem str_to_argv_all_or_nothing:
  assumes "ret (str_to_argv ins r_argc r_argv seps h) \<noteq> 0"
  shows "strs (mem_out (str_to_argv ins r_argc r_argv seps h)) = strs h
         \<and> arrs (mem_out (str_to_argv ins r_argc r_argv seps h)) = arrs h
         \<and> argc_out (str_to_argv ins r_argc r_argv seps h) = r_argc
         \<and> argv_out (str_to_argv ins r_argc r_argv seps h) = r_argv
         \<and> (ret (str_to_argv ins r_argc r_argv seps h) = ENOMEM
            \<or> ret (str_to_argv ins r_argc r_argv seps h) = - 1)"
proof (cases rule: strdup_cases [of ins h])
  case (1 h1)
  then show ?thesis by (simp add: str_to_argv_def)
next
  case s: (2 orig_s h1)
  show ?thesis
  proof (cases rule: malloc_ptrs_cases [of 10 h1])
    case (1 h2)
    with s show ?thesis
      by (simp add: str_to_argv_def free_chars_def filter_absent_key)
  next
    case m: (2 a h2)
    let ?seps = "case seps of None \<Rightarrow> default_seps | Some x \<Rightarrow> x"
    let ?st2 = "run_loop ?seps orig_s a h2"
    from s m have "owned h orig_s ?st2" and e: "err_ok ?st2"
      by (auto intro!: run_loop_owned)
    from owned_released [OF this(1)] e assms show ?thesis
      unfolding str_to_argv_unfold [OF s(1) m(1)]
      by (auto simp: Let_def err_ok_def)
  qed
qed


text \<open>
  Two failing calls in a heap that already holds a buffer and an array: an unterminated
  quote, and nine tokens when the third allocation request (the \<open>realloc\<close>) fails.
\<close>

theorem str_to_argv_all_or_nothing_witness:
  "ret (str_to_argv [0x61, 0x20, 0x22] 7 (Some 3) None
          \<lparr>strs = [(5, [0x7A, 0])], arrs = [(3, [Null])], fails = []\<rparr>) = - 1
   \<and> strs (mem_out (str_to_argv [0x61, 0x20, 0x22] 7 (Some 3) None
          \<lparr>strs = [(5, [0x7A, 0])], arrs = [(3, [Null])], fails = []\<rparr>)) = [(5, [0x7A, 0])]
   \<and> arrs (mem_out (str_to_argv [0x61, 0x20, 0x22] 7 (Some 3) None
          \<lparr>strs = [(5, [0x7A, 0])], arrs = [(3, [Null])], fails = []\<rparr>)) = [(3, [Null])]
   \<and> ret (str_to_argv [0x61, 0x20, 0x62, 0x20, 0x63, 0x20, 0x64, 0x20, 0x65, 0x20, 0x66, 0x20,
                         0x67, 0x20, 0x68, 0x20, 0x69] 7 (Some 3) None
          \<lparr>strs = [(5, [0x7A, 0])], arrs = [(3, [Null])], fails = [False, False, True]\<rparr>)
       = ENOMEM
   \<and> arrs (mem_out (str_to_argv [0x61, 0x20, 0x62, 0x20, 0x63, 0x20, 0x64, 0x20, 0x65, 0x20,
                                   0x66, 0x20, 0x67, 0x20, 0x68, 0x20, 0x69] 7 (Some 3) None
          \<lparr>strs = [(5, [0x7A, 0])], arrs = [(3, [Null])], fails = [False, False, True]\<rparr>))
       = [(3, [Null])]
   \<and> argc_out (str_to_argv [0x61, 0x20, 0x62, 0x20, 0x63, 0x20, 0x64, 0x20, 0x65, 0x20,
                              0x66, 0x20, 0x67, 0x20, 0x68, 0x20, 0x69] 7 (Some 3) None
          \<lparr>strs = [(5, [0x7A, 0])], arrs = [(3, [Null])], fails = [False, False, True]\<rparr>)
       = 7"
proof -
  let ?h = "\<lparr>strs = [(5, [0x7A, 0::byte])], arrs = [(3, [Null])], fails = []\<rparr>"
  let ?g = "\<lparr>strs = [(5, [0x7A, 0::byte])], arrs = [(3, [Null])], fails = [False, False, True]\<rparr>"
  let ?nine = "[0x61, 0x20, 0x62, 0x20, 0x63, 0x20, 0x64, 0x20, 0x65, 0x20, 0x66, 0x20,
                0x67, 0x20, 0x68, 0x20, 0x69 :: byte]"
  have a: "ret (str_to_argv [0x61, 0x20, 0x22] 7 (Some 3) None ?h) = - 1"
    by code_simp
  have b: "ret (str_to_argv ?nine 7 (Some 3) None ?g) = ENOMEM"
    by code_simp
  from a have a0: "ret (str_to_argv [0x61, 0x20, 0x22] 7 (Some 3) None ?h) \<noteq> 0"
    by simp
  from b have b0: "ret (str_to_argv ?nine 7 (Some 3) None ?g) \<noteq> 0"
    by (simp add: ENOMEM_def)
  from str_to_argv_all_or_nothing [OF a0] str_to_argv_all_or_nothing [OF b0] a b
  show ?thesis
    by simp
qed

section \<open>A character that interrupts the digits\<close>

text \<open>
  Claim C4. While digits are collected (\<open>escape\<close> is 2 or 3), a character that is not
  of the class the escape needs (not an octal digit for base 8, not a hex digit for
  base 16) is not taken into the escape. The accumulated value goes out as one byte at
  the write cursor, which leaves the character under the read cursor as it was, and the
  same pass of the body then treats that character as it would with no escape pending:
  the character that closes the open quote closes it; a quote character, with no quote
  open, opens a quote; a backslash starts a new escape; a separator, with no quote open,
  ends the token (the body breaks after \<open>p++\<close>); any other character is copied right
  after the flushed byte. The rest of the scan is that of the state with the byte flushed
  and no escape pending. On the inputs 5C 31 61, 5C 31 22 62 20 63 22, 22 5C 31 22,
  5C 31 5C 6E, 5C 31 20 62 and 5C 78 31 67 \<open>str_to_argv\<close> returns 0 with the tokens
  01 61; 01 62 20 63; 01; 01 0A; 01 and 62; 01 67.
\<close>

theorem digit_collection_interrupted:
  assumes "scan_inv st" and "2 \<le> escape st"
    and "rd (buf st) (ptr_p st) \<noteq> 0"
    and "(base st = 8 \<and> \<not> isodigit (rd (buf st) (ptr_p st)))
         \<or> (base st = 16 \<and> \<not> isxdigit (rd (buf st) (ptr_p st)))"
  shows "rd ((buf st)[ptr_o st := cval st]) (ptr_p st) = rd (buf st) (ptr_p st)
   \<and> (rd (buf st) (ptr_p st) = inquote st \<longrightarrow>
        loop_body seps st = (False, st\<lparr>buf := (buf st)[ptr_o st := cval st], ptr_o := ptr_o st + 1, escape := 0, inquote := 0\<rparr>))
   \<and> (inquote st = 0 \<and> (rd (buf st) (ptr_p st) = 0x27 \<or> rd (buf st) (ptr_p st) = 0x22) \<longrightarrow>
        loop_body seps st
          = (False, st\<lparr>buf := (buf st)[ptr_o st := cval st], ptr_o := ptr_o st + 1, escape := 0,
                       inquote := rd (buf st) (ptr_p st)\<rparr>))
   \<and> (rd (buf st) (ptr_p st) = 0x5C \<longrightarrow>
        loop_body seps st = (False, st\<lparr>buf := (buf st)[ptr_o st := cval st], ptr_o := ptr_o st + 1, escape := 1\<rparr>))
   \<and> (inquote st = 0 \<and> rd (buf st) (ptr_p st) \<noteq> 0x27 \<and> rd (buf st) (ptr_p st) \<noteq> 0x22
        \<and> rd (buf st) (ptr_p st) \<noteq> 0x5C \<and> is_sep_space (rd (buf st) (ptr_p st)) seps \<longrightarrow>
        loop_body seps st
          = (True, st\<lparr>buf := (buf st)[ptr_o st := cval st], ptr_o := ptr_o st + 1, escape := 0,
                      ptr_p := ptr_p st + 1\<rparr>))
   \<and> (rd (buf st) (ptr_p st) \<noteq> inquote st \<and> rd (buf st) (ptr_p st) \<noteq> 0x5C
        \<and> (inquote st = 0 \<longrightarrow>
              rd (buf st) (ptr_p st) \<noteq> 0x27 \<and> rd (buf st) (ptr_p st) \<noteq> 0x22
              \<and> \<not> is_sep_space (rd (buf st) (ptr_p st)) seps) \<longrightarrow>
        loop_body seps st
          = (False, st\<lparr>buf := (buf st)[ptr_o st := cval st, ptr_o st + 1 := rd (buf st) (ptr_p st)],
                       ptr_o := ptr_o st + 2, escape := 0\<rparr>))
   \<and> gettok_loop seps st
       = gettok_loop seps (st\<lparr>buf := (buf st)[ptr_o st := cval st], ptr_o := ptr_o st + 1, escape := 0\<rparr>)
   \<and> ret (str_to_argv [0x5C, 0x31, 0x61] r_argc r_argv None empty_heap) = 0
   \<and> tokens (str_to_argv [0x5C, 0x31, 0x61] r_argc r_argv None empty_heap) = [[0x01, 0x61]]
   \<and> ret (str_to_argv [0x5C, 0x31, 0x22, 0x62, 0x20, 0x63, 0x22] r_argc r_argv None empty_heap) = 0
   \<and> tokens (str_to_argv [0x5C, 0x31, 0x22, 0x62, 0x20, 0x63, 0x22] r_argc r_argv None empty_heap) = [[0x01, 0x62, 0x20, 0x63]]
   \<and> ret (str_to_argv [0x22, 0x5C, 0x31, 0x22] r_argc r_argv None empty_heap) = 0
   \<and> tokens (str_to_argv [0x22, 0x5C, 0x31, 0x22] r_argc r_argv None empty_heap) = [[0x01]]
   \<and> ret (str_to_argv [0x5C, 0x31, 0x5C, 0x6E] r_argc r_argv None empty_heap) = 0
   \<and> tokens (str_to_argv [0x5C, 0x31, 0x5C, 0x6E] r_argc r_argv None empty_heap) = [[0x01, 0x0A]]
   \<and> ret (str_to_argv [0x5C, 0x31, 0x20, 0x62] r_argc r_argv None empty_heap) = 0
   \<and> tokens (str_to_argv [0x5C, 0x31, 0x20, 0x62] r_argc r_argv None empty_heap) = [[0x01], [0x62]]
   \<and> ret (str_to_argv [0x5C, 0x78, 0x31, 0x67] r_argc r_argv None empty_heap) = 0
   \<and> tokens (str_to_argv [0x5C, 0x78, 0x31, 0x67] r_argc r_argv None empty_heap) = [[0x01, 0x67]]"
proof -
  let ?f = "st\<lparr>buf := (buf st)[ptr_o st := cval st], ptr_o := ptr_o st + 1, escape := 0\<rparr>"
  note i = gettok_loop_interrupted [OF assms]
  have same: "rd (buf ?f) (ptr_p ?f) = rd (buf st) (ptr_p st)"
    using i(1) by simp
  have q: "inquote st = 0 \<or> inquote st = 0x27 \<or> inquote st = 0x22"
    using assms(1) by (simp add: scan_inv_def)
  have body: "loop_body seps st = process_char seps ?f"
    by (rule i(2))
  have g0: "rd ((buf st)[ptr_o st := cval st]) (ptr_p st) = rd (buf st) (ptr_p st)"
    using i(1) by simp
  have g1: "(rd (buf st) (ptr_p st) = inquote st \<longrightarrow>
        loop_body seps st = (False, st\<lparr>buf := (buf st)[ptr_o st := cval st], ptr_o := ptr_o st + 1, escape := 0, inquote := 0\<rparr>))"
    unfolding body process_char_def same by simp
  have g2: "(inquote st = 0 \<and> (rd (buf st) (ptr_p st) = 0x27 \<or> rd (buf st) (ptr_p st) = 0x22) \<longrightarrow>
        loop_body seps st
          = (False, st\<lparr>buf := (buf st)[ptr_o st := cval st], ptr_o := ptr_o st + 1, escape := 0,
                       inquote := rd (buf st) (ptr_p st)\<rparr>))"
    unfolding body process_char_def same using assms(3) by auto
  have g3: "(rd (buf st) (ptr_p st) = 0x5C \<longrightarrow>
        loop_body seps st = (False, st\<lparr>buf := (buf st)[ptr_o st := cval st], ptr_o := ptr_o st + 1, escape := 1\<rparr>))"
    unfolding body process_char_def same using q by auto
  have g4: "(inquote st = 0 \<and> rd (buf st) (ptr_p st) \<noteq> 0x27 \<and> rd (buf st) (ptr_p st) \<noteq> 0x22
        \<and> rd (buf st) (ptr_p st) \<noteq> 0x5C \<and> is_sep_space (rd (buf st) (ptr_p st)) seps \<longrightarrow>
        loop_body seps st
          = (True, st\<lparr>buf := (buf st)[ptr_o st := cval st], ptr_o := ptr_o st + 1, escape := 0,
                      ptr_p := ptr_p st + 1\<rparr>))"
    unfolding body process_char_def same using assms(3) by simp
  have g5: "(rd (buf st) (ptr_p st) \<noteq> inquote st \<and> rd (buf st) (ptr_p st) \<noteq> 0x5C
        \<and> (inquote st = 0 \<longrightarrow>
              rd (buf st) (ptr_p st) \<noteq> 0x27 \<and> rd (buf st) (ptr_p st) \<noteq> 0x22
              \<and> \<not> is_sep_space (rd (buf st) (ptr_p st)) seps) \<longrightarrow>
        loop_body seps st
          = (False, st\<lparr>buf := (buf st)[ptr_o st := cval st, ptr_o st + 1 := rd (buf st) (ptr_p st)],
                       ptr_o := ptr_o st + 2, escape := 0\<rparr>))"
    unfolding body process_char_def same by (auto simp: put_def)
  have g6: "gettok_loop seps st
       = gettok_loop seps (st\<lparr>buf := (buf st)[ptr_o st := cval st], ptr_o := ptr_o st + 1, escape := 0\<rparr>)"
    by (rule i(3))
  have e0: "ret (str_to_argv [0x5C, 0x31, 0x61] r_argc r_argv None empty_heap) = 0"
    by code_simp
  have e1: "tokens (str_to_argv [0x5C, 0x31, 0x61] r_argc r_argv None empty_heap) = [[0x01, 0x61]]"
    by code_simp
  have e2: "ret (str_to_argv [0x5C, 0x31, 0x22, 0x62, 0x20, 0x63, 0x22] r_argc r_argv None empty_heap) = 0"
    by code_simp
  have e3: "tokens (str_to_argv [0x5C, 0x31, 0x22, 0x62, 0x20, 0x63, 0x22] r_argc r_argv None empty_heap) = [[0x01, 0x62, 0x20, 0x63]]"
    by code_simp
  have e4: "ret (str_to_argv [0x22, 0x5C, 0x31, 0x22] r_argc r_argv None empty_heap) = 0"
    by code_simp
  have e5: "tokens (str_to_argv [0x22, 0x5C, 0x31, 0x22] r_argc r_argv None empty_heap) = [[0x01]]"
    by code_simp
  have e6: "ret (str_to_argv [0x5C, 0x31, 0x5C, 0x6E] r_argc r_argv None empty_heap) = 0"
    by code_simp
  have e7: "tokens (str_to_argv [0x5C, 0x31, 0x5C, 0x6E] r_argc r_argv None empty_heap) = [[0x01, 0x0A]]"
    by code_simp
  have e8: "ret (str_to_argv [0x5C, 0x31, 0x20, 0x62] r_argc r_argv None empty_heap) = 0"
    by code_simp
  have e9: "tokens (str_to_argv [0x5C, 0x31, 0x20, 0x62] r_argc r_argv None empty_heap) = [[0x01], [0x62]]"
    by code_simp
  have e10: "ret (str_to_argv [0x5C, 0x78, 0x31, 0x67] r_argc r_argv None empty_heap) = 0"
    by code_simp
  have e11: "tokens (str_to_argv [0x5C, 0x78, 0x31, 0x67] r_argc r_argv None empty_heap) = [[0x01, 0x67]]"
    by code_simp
  from g0 g1 g2 g3 g4 g5 g6
    e0 e1 e2 e3 e4 e5 e6 e7 e8 e9 e10 e11
  show ?thesis
    by (intro conjI)
qed

text \<open>
  Six scans standing on the character that interrupts the digits, the value 1 collected:
  in 5C 31 61 the \<open>a\<close> is copied after the byte 1; in 5C 31 22 62 the double quote opens
  a quote; in 22 5C 31 22 it closes the open one; in 5C 31 5C 6E the backslash starts a
  new escape; in 5C 31 20 62 the space ends the token; in 5C 78 31 67, a hex escape with
  one digit, the \<open>g\<close> is copied after the byte 1.
\<close>

theorem digit_collection_interrupted_witness:
  "scan_inv \<lparr>ptr_p = 2, ptr_o = 0, inquote = 0, escape = 2, base = 8, cval = 1,
             buf = [0x5C, 0x31, 0x61, 0]\<rparr>
   \<and> loop_body default_seps
      \<lparr>ptr_p = 2, ptr_o = 0, inquote = 0, escape = 2, base = 8, cval = 1,
       buf = [0x5C, 0x31, 0x61, 0]\<rparr>
     = (False, \<lparr>ptr_p = 2, ptr_o = 2, inquote = 0, escape = 0, base = 8, cval = 1,
          buf = [0x01, 0x61, 0x61, 0]\<rparr>)
   \<and> scan_inv \<lparr>ptr_p = 2, ptr_o = 0, inquote = 0, escape = 2, base = 8, cval = 1,
             buf = [0x5C, 0x31, 0x22, 0x62, 0]\<rparr>
   \<and> loop_body default_seps
      \<lparr>ptr_p = 2, ptr_o = 0, inquote = 0, escape = 2, base = 8, cval = 1,
       buf = [0x5C, 0x31, 0x22, 0x62, 0]\<rparr>
     = (False, \<lparr>ptr_p = 2, ptr_o = 1, inquote = 0x22, escape = 0, base = 8, cval = 1,
          buf = [0x01, 0x31, 0x22, 0x62, 0]\<rparr>)
   \<and> scan_inv \<lparr>ptr_p = 3, ptr_o = 0, inquote = 0x22, escape = 2, base = 8, cval = 1,
             buf = [0x22, 0x5C, 0x31, 0x22, 0]\<rparr>
   \<and> loop_body default_seps
      \<lparr>ptr_p = 3, ptr_o = 0, inquote = 0x22, escape = 2, base = 8, cval = 1,
       buf = [0x22, 0x5C, 0x31, 0x22, 0]\<rparr>
     = (False, \<lparr>ptr_p = 3, ptr_o = 1, inquote = 0, escape = 0, base = 8, cval = 1,
          buf = [0x01, 0x5C, 0x31, 0x22, 0]\<rparr>)
   \<and> scan_inv \<lparr>ptr_p = 2, ptr_o = 0, inquote = 0, escape = 2, base = 8, cval = 1,
             buf = [0x5C, 0x31, 0x5C, 0x6E, 0]\<rparr>
   \<and> loop_body default_seps
      \<lparr>ptr_p = 2, ptr_o = 0, inquote = 0, escape = 2, base = 8, cval = 1,
       buf = [0x5C, 0x31, 0x5C, 0x6E, 0]\<rparr>
     = (False, \<lparr>ptr_p = 2, ptr_o = 1, inquote = 0, escape = 1, base = 8, cval = 1,
          buf = [0x01, 0x31, 0x5C, 0x6E, 0]\<rparr>)
   \<and> scan_inv \<lparr>ptr_p = 2, ptr_o = 0, inquote = 0, escape = 2, base = 8, cval = 1,
             buf = [0x5C, 0x31, 0x20, 0x62, 0]\<rparr>
   \<and> loop_body default_seps
      \<lparr>ptr_p = 2, ptr_o = 0, inquote = 0, escape = 2, base = 8, cval = 1,
       buf = [0x5C, 0x31, 0x20, 0x62, 0]\<rparr>
     = (True, \<lparr>ptr_p = 3, ptr_o = 1, inquote = 0, escape = 0, base = 8, cval = 1,
          buf = [0x01, 0x31, 0x20, 0x62, 0]\<rparr>)
   \<and> scan_inv \<lparr>ptr_p = 3, ptr_o = 0, inquote = 0, escape = 3, base = 16, cval = 1,
             buf = [0x5C, 0x78, 0x31, 0x67, 0]\<rparr>
   \<and> loop_body default_seps
      \<lparr>ptr_p = 3, ptr_o = 0, inquote = 0, escape = 3, base = 16, cval = 1,
       buf = [0x5C, 0x78, 0x31, 0x67, 0]\<rparr>
     = (False, \<lparr>ptr_p = 3, ptr_o = 2, inquote = 0, escape = 0, base = 16, cval = 1,
          buf = [0x01, 0x67, 0x31, 0x67, 0]\<rparr>)"
proof -
  let ?a = "\<lparr>ptr_p = 2, ptr_o = 0, inquote = 0, escape = 2, base = 8, cval = 1,
             buf = [0x5C, 0x31, 0x61, 0::byte]\<rparr>"
  let ?b = "\<lparr>ptr_p = 2, ptr_o = 0, inquote = 0, escape = 2, base = 8, cval = 1,
             buf = [0x5C, 0x31, 0x22, 0x62, 0::byte]\<rparr>"
  let ?c = "\<lparr>ptr_p = 3, ptr_o = 0, inquote = 0x22, escape = 2, base = 8, cval = 1,
             buf = [0x22, 0x5C, 0x31, 0x22, 0::byte]\<rparr>"
  let ?d = "\<lparr>ptr_p = 2, ptr_o = 0, inquote = 0, escape = 2, base = 8, cval = 1,
             buf = [0x5C, 0x31, 0x5C, 0x6E, 0::byte]\<rparr>"
  let ?e = "\<lparr>ptr_p = 2, ptr_o = 0, inquote = 0, escape = 2, base = 8, cval = 1,
             buf = [0x5C, 0x31, 0x20, 0x62, 0::byte]\<rparr>"
  let ?f = "\<lparr>ptr_p = 3, ptr_o = 0, inquote = 0, escape = 3, base = 16, cval = 1,
             buf = [0x5C, 0x78, 0x31, 0x67, 0::byte]\<rparr>"
  have inv_a: "scan_inv ?a"
    by (simp add: scan_inv_def)
  have esc_a: "2 \<le> escape ?a"
    by simp
  have nz_a: "rd (buf ?a) (ptr_p ?a) \<noteq> 0"
    by (simp add: rd_def)
  have cls_a: "(base ?a = 8 \<and> \<not> isodigit (rd (buf ?a) (ptr_p ?a)))
         \<or> (base ?a = 16 \<and> \<not> isxdigit (rd (buf ?a) (ptr_p ?a)))"
    by code_simp
  have c_a: "rd (buf ?a) (ptr_p ?a) \<noteq> inquote ?a \<and> rd (buf ?a) (ptr_p ?a) \<noteq> 0x5C \<and> (inquote ?a = 0 \<longrightarrow> rd (buf ?a) (ptr_p ?a) \<noteq> 0x27 \<and> rd (buf ?a) (ptr_p ?a) \<noteq> 0x22 \<and> \<not> is_sep_space (rd (buf ?a) (ptr_p ?a)) default_seps)"
    by code_simp
  from digit_collection_interrupted [OF inv_a esc_a nz_a cls_a,
      where seps = default_seps, THEN conjunct2, THEN conjunct2, THEN conjunct2, THEN conjunct2, THEN conjunct2, THEN conjunct1, THEN mp, OF c_a]
  have r_a: "loop_body default_seps ?a
     = (False, \<lparr>ptr_p = 2, ptr_o = 2, inquote = 0, escape = 0, base = 8, cval = 1,
          buf = [0x01, 0x61, 0x61, 0]\<rparr>)"
    by (simp add: rd_def)
  have inv_b: "scan_inv ?b"
    by (simp add: scan_inv_def)
  have esc_b: "2 \<le> escape ?b"
    by simp
  have nz_b: "rd (buf ?b) (ptr_p ?b) \<noteq> 0"
    by (simp add: rd_def)
  have cls_b: "(base ?b = 8 \<and> \<not> isodigit (rd (buf ?b) (ptr_p ?b)))
         \<or> (base ?b = 16 \<and> \<not> isxdigit (rd (buf ?b) (ptr_p ?b)))"
    by code_simp
  have c_b: "inquote ?b = 0 \<and> (rd (buf ?b) (ptr_p ?b) = 0x27 \<or> rd (buf ?b) (ptr_p ?b) = 0x22)"
    by code_simp
  from digit_collection_interrupted [OF inv_b esc_b nz_b cls_b,
      where seps = default_seps, THEN conjunct2, THEN conjunct2, THEN conjunct1, THEN mp, OF c_b]
  have r_b: "loop_body default_seps ?b
     = (False, \<lparr>ptr_p = 2, ptr_o = 1, inquote = 0x22, escape = 0, base = 8, cval = 1,
          buf = [0x01, 0x31, 0x22, 0x62, 0]\<rparr>)"
    by (simp add: rd_def)
  have inv_c: "scan_inv ?c"
    by (simp add: scan_inv_def)
  have esc_c: "2 \<le> escape ?c"
    by simp
  have nz_c: "rd (buf ?c) (ptr_p ?c) \<noteq> 0"
    by (simp add: rd_def)
  have cls_c: "(base ?c = 8 \<and> \<not> isodigit (rd (buf ?c) (ptr_p ?c)))
         \<or> (base ?c = 16 \<and> \<not> isxdigit (rd (buf ?c) (ptr_p ?c)))"
    by code_simp
  have c_c: "rd (buf ?c) (ptr_p ?c) = inquote ?c"
    by code_simp
  from digit_collection_interrupted [OF inv_c esc_c nz_c cls_c,
      where seps = default_seps, THEN conjunct2, THEN conjunct1, THEN mp, OF c_c]
  have r_c: "loop_body default_seps ?c
     = (False, \<lparr>ptr_p = 3, ptr_o = 1, inquote = 0, escape = 0, base = 8, cval = 1,
          buf = [0x01, 0x5C, 0x31, 0x22, 0]\<rparr>)"
    by (simp add: rd_def)
  have inv_d: "scan_inv ?d"
    by (simp add: scan_inv_def)
  have esc_d: "2 \<le> escape ?d"
    by simp
  have nz_d: "rd (buf ?d) (ptr_p ?d) \<noteq> 0"
    by (simp add: rd_def)
  have cls_d: "(base ?d = 8 \<and> \<not> isodigit (rd (buf ?d) (ptr_p ?d)))
         \<or> (base ?d = 16 \<and> \<not> isxdigit (rd (buf ?d) (ptr_p ?d)))"
    by code_simp
  have c_d: "rd (buf ?d) (ptr_p ?d) = 0x5C"
    by code_simp
  from digit_collection_interrupted [OF inv_d esc_d nz_d cls_d,
      where seps = default_seps, THEN conjunct2, THEN conjunct2, THEN conjunct2, THEN conjunct1, THEN mp, OF c_d]
  have r_d: "loop_body default_seps ?d
     = (False, \<lparr>ptr_p = 2, ptr_o = 1, inquote = 0, escape = 1, base = 8, cval = 1,
          buf = [0x01, 0x31, 0x5C, 0x6E, 0]\<rparr>)"
    by (simp add: rd_def)
  have inv_e: "scan_inv ?e"
    by (simp add: scan_inv_def)
  have esc_e: "2 \<le> escape ?e"
    by simp
  have nz_e: "rd (buf ?e) (ptr_p ?e) \<noteq> 0"
    by (simp add: rd_def)
  have cls_e: "(base ?e = 8 \<and> \<not> isodigit (rd (buf ?e) (ptr_p ?e)))
         \<or> (base ?e = 16 \<and> \<not> isxdigit (rd (buf ?e) (ptr_p ?e)))"
    by code_simp
  have c_e: "inquote ?e = 0 \<and> rd (buf ?e) (ptr_p ?e) \<noteq> 0x27 \<and> rd (buf ?e) (ptr_p ?e) \<noteq> 0x22 \<and> rd (buf ?e) (ptr_p ?e) \<noteq> 0x5C \<and> is_sep_space (rd (buf ?e) (ptr_p ?e)) default_seps"
    by code_simp
  from digit_collection_interrupted [OF inv_e esc_e nz_e cls_e,
      where seps = default_seps, THEN conjunct2, THEN conjunct2, THEN conjunct2, THEN conjunct2, THEN conjunct1, THEN mp, OF c_e]
  have r_e: "loop_body default_seps ?e
     = (True, \<lparr>ptr_p = 3, ptr_o = 1, inquote = 0, escape = 0, base = 8, cval = 1,
          buf = [0x01, 0x31, 0x20, 0x62, 0]\<rparr>)"
    by (simp add: rd_def)
  have inv_f: "scan_inv ?f"
    by (simp add: scan_inv_def)
  have esc_f: "2 \<le> escape ?f"
    by simp
  have nz_f: "rd (buf ?f) (ptr_p ?f) \<noteq> 0"
    by (simp add: rd_def)
  have cls_f: "(base ?f = 8 \<and> \<not> isodigit (rd (buf ?f) (ptr_p ?f)))
         \<or> (base ?f = 16 \<and> \<not> isxdigit (rd (buf ?f) (ptr_p ?f)))"
    by code_simp
  have c_f: "rd (buf ?f) (ptr_p ?f) \<noteq> inquote ?f \<and> rd (buf ?f) (ptr_p ?f) \<noteq> 0x5C \<and> (inquote ?f = 0 \<longrightarrow> rd (buf ?f) (ptr_p ?f) \<noteq> 0x27 \<and> rd (buf ?f) (ptr_p ?f) \<noteq> 0x22 \<and> \<not> is_sep_space (rd (buf ?f) (ptr_p ?f)) default_seps)"
    by code_simp
  from digit_collection_interrupted [OF inv_f esc_f nz_f cls_f,
      where seps = default_seps, THEN conjunct2, THEN conjunct2, THEN conjunct2, THEN conjunct2, THEN conjunct2, THEN conjunct1, THEN mp, OF c_f]
  have r_f: "loop_body default_seps ?f
     = (False, \<lparr>ptr_p = 3, ptr_o = 2, inquote = 0, escape = 0, base = 16, cval = 1,
          buf = [0x01, 0x67, 0x31, 0x67, 0]\<rparr>)"
    by (simp add: rd_def)
  from inv_a r_a inv_b r_b inv_c r_c inv_d r_d inv_e r_e inv_f r_f
  show ?thesis
    by (intro conjI)
qed


section \<open>The buffer ends while digits are collected\<close>

text \<open>
  Claim C5, as stated: when the buffer ends with at least one digit collected and fewer
  than the target count, \<open>gettok\<close> flushes the value and succeeds. On the input
  \<open>"\1\<close> (a double quote, a backslash, the digit 1) the loop stops on the terminator
  with one octal digit collected (\<open>escape = 2\<close>, \<open>base = 8\<close>), and \<open>gettok\<close> returns
  -1 without setting the token, since the quote is still open; \<open>str_to_argv\<close> returns
  -1 too.
\<close>

theorem short_escape_in_open_quote_counterexample:
  "rd (buf (gettok_loop default_seps
              \<lparr>ptr_p = 0, ptr_o = 0, inquote = 0, escape = 0, base = 8, cval = 0,
               buf = [0x22, 0x5C, 0x31, 0]\<rparr>))
      (ptr_p (gettok_loop default_seps
              \<lparr>ptr_p = 0, ptr_o = 0, inquote = 0, escape = 0, base = 8, cval = 0,
               buf = [0x22, 0x5C, 0x31, 0]\<rparr>)) = 0
   \<and> escape (gettok_loop default_seps
              \<lparr>ptr_p = 0, ptr_o = 0, inquote = 0, escape = 0, base = 8, cval = 0,
               buf = [0x22, 0x5C, 0x31, 0]\<rparr>) = 2
   \<and> base (gettok_loop default_seps
              \<lparr>ptr_p = 0, ptr_o = 0, inquote = 0, escape = 0, base = 8, cval = 0,
               buf = [0x22, 0x5C, 0x31, 0]\<rparr>) = 8
   \<and> rv (gettok [0x22, 0x5C, 0x31, 0] 0 default_seps) = - 1
   \<and> tok_out (gettok [0x22, 0x5C, 0x31, 0] 0 default_seps) = Unset
   \<and> ret (str_to_argv [0x22, 0x5C, 0x31] 0 None None empty_heap) = - 1"
  by code_simp

text \<open>
  Claim C5, amended. When the loop of \<open>gettok\<close> ends with at least one digit collected
  and fewer than the target count (base 8 with \<open>escape\<close> 2 or 3, base 16 with
  \<open>escape\<close> 3), it has stopped on the terminator, and the accumulated value is written
  as one byte at the write cursor. If no quote is open the call then returns 0 with the
  token, terminated right after that byte; if a quote is open it returns -1 and sets no
  token.
\<close>

theorem short_escape_at_end_of_buffer:
  assumes "scan_inv st0" and "st = gettok_loop seps st0"
    and "(base st = 8 \<and> (escape st = 2 \<or> escape st = 3)) \<or> (base st = 16 \<and> escape st = 3)"
  shows "rd (buf st) (ptr_p st) = 0
         \<and> gettok_finish t st
             = (if inquote st = 0
                then \<lparr>rv = 0, s_out = ptr_p st, tok_out = SetTok t,
                      buf_out = (buf st)[ptr_o st := cval st, ptr_o st + 1 := 0]\<rparr>
                else \<lparr>rv = - 1, s_out = ptr_p st, tok_out = Unset,
                      buf_out = (buf st)[ptr_o st := cval st]\<rparr>)"
proof -
  from gettok_loop_exit [OF assms(1), of seps] assms(2,3)
  have "rd (buf st) (ptr_p st) = 0"
    by auto
  moreover from assms(3) have "gettok_finish t st
             = (if inquote st = 0
                then \<lparr>rv = 0, s_out = ptr_p st, tok_out = SetTok t,
                      buf_out = (buf st)[ptr_o st := cval st, ptr_o st + 1 := 0]\<rparr>
                else \<lparr>rv = - 1, s_out = ptr_p st, tok_out = Unset,
                      buf_out = (buf st)[ptr_o st := cval st]\<rparr>)"
    by (auto simp: gettok_finish_def put_def Let_def)
  ultimately show ?thesis by simp
qed

text \<open>The scan of \<open>a\12\<close>: two octal digits, then the terminator; the token is \<open>a\<close>, byte 10.\<close>

theorem short_escape_at_end_of_buffer_witness:
  "scan_inv \<lparr>ptr_p = 0, ptr_o = 0, inquote = 0, escape = 0, base = 8, cval = 0,
             buf = [0x61, 0x5C, 0x31, 0x32, 0]\<rparr>
   \<and> gettok_loop default_seps
        \<lparr>ptr_p = 0, ptr_o = 0, inquote = 0, escape = 0, base = 8, cval = 0,
         buf = [0x61, 0x5C, 0x31, 0x32, 0]\<rparr>
       = \<lparr>ptr_p = 4, ptr_o = 1, inquote = 0, escape = 3, base = 8, cval = 10,
          buf = [0x61, 0x5C, 0x31, 0x32, 0]\<rparr>
   \<and> gettok_finish 0
        \<lparr>ptr_p = 4, ptr_o = 1, inquote = 0, escape = 3, base = 8, cval = 10,
         buf = [0x61, 0x5C, 0x31, 0x32, 0]\<rparr>
       = \<lparr>rv = 0, s_out = 4, tok_out = SetTok 0, buf_out = [0x61, 0x0A, 0, 0x32, 0]\<rparr>"
proof -
  let ?ini = "\<lparr>ptr_p = 0, ptr_o = 0, inquote = 0, escape = 0, base = 8, cval = 0,
               buf = [0x61, 0x5C, 0x31, 0x32, 0::byte]\<rparr>"
  let ?st = "\<lparr>ptr_p = 4, ptr_o = 1, inquote = 0, escape = 3, base = 8, cval = 10,
              buf = [0x61, 0x5C, 0x31, 0x32, 0::byte]\<rparr>"
  have inv: "scan_inv ?ini"
    by (simp add: scan_inv_def)
  have run: "?st = gettok_loop default_seps ?ini"
    by code_simp
  have mid: "(base ?st = 8 \<and> (escape ?st = 2 \<or> escape ?st = 3)) \<or> (base ?st = 16 \<and> escape ?st = 3)"
    by simp
  from short_escape_at_end_of_buffer [OF inv run mid, of 0]
  have "gettok_finish 0 ?st
             = (if inquote ?st = 0
                then \<lparr>rv = 0, s_out = ptr_p ?st, tok_out = SetTok 0,
                      buf_out = (buf ?st)[ptr_o ?st := cval ?st, ptr_o ?st + 1 := 0]\<rparr>
                else \<lparr>rv = - 1, s_out = ptr_p ?st, tok_out = Unset,
                      buf_out = (buf ?st)[ptr_o ?st := cval ?st]\<rparr>)"
    by (rule conjunct2)
  then have fin: "gettok_finish 0 ?st
       = \<lparr>rv = 0, s_out = 4, tok_out = SetTok 0, buf_out = [0x61, 0x0A, 0, 0x32, 0]\<rparr>"
    by simp
  from inv run [symmetric] fin show ?thesis
    by (intro conjI)
qed

section \<open>Escaped separators\<close>

text \<open>
  Claim C6. A separator character that follows a backslash is not a delimiter: the loop
  body never leaves the loop on the character right after a backslash
  (\<open>escape = 1\<close>), whatever the separator set. On the input \<open>a\ b\<close> (bytes 61 5C 20
  62) with the default separators (\<open>seps\<close> NULL) \<open>str_to_argv\<close> returns 0, sets
  \<open>*r_argc\<close> to 1 and the one token is the three bytes \<open>a\<close>, space, \<open>b\<close>.
\<close>

theorem escaped_separator_is_no_delimiter:
  "(escape st = 1 \<longrightarrow> \<not> fst (loop_body seps st))
   \<and> ret (str_to_argv [0x61, 0x5C, 0x20, 0x62] r_argc r_argv None empty_heap) = 0
   \<and> argc_out (str_to_argv [0x61, 0x5C, 0x20, 0x62] r_argc r_argv None empty_heap) = 1
   \<and> tokens (str_to_argv [0x61, 0x5C, 0x20, 0x62] r_argc r_argv None empty_heap)
       = [[0x61, 0x20, 0x62]]"
proof -
  have "escape st = 1 \<longrightarrow> \<not> fst (loop_body seps st)"
    by (simp add: loop_body_def Let_def)
  moreover have "ret (str_to_argv [0x61, 0x5C, 0x20, 0x62] r_argc r_argv None empty_heap) = 0"
    by code_simp
  moreover have "argc_out (str_to_argv [0x61, 0x5C, 0x20, 0x62] r_argc r_argv None empty_heap) = 1"
    by code_simp
  moreover have "tokens (str_to_argv [0x61, 0x5C, 0x20, 0x62] r_argc r_argv None empty_heap)
       = [[0x61, 0x20, 0x62]]"
    by code_simp
  ultimately show ?thesis by blast
qed

text \<open>
  The same fact at a concrete state: the scan of \<open>a\ b\<close> stands on the space, just
  after the backslash, and the body does not leave the loop there.
\<close>

theorem escaped_separator_is_no_delimiter_witness:
  "escape \<lparr>ptr_p = 2, ptr_o = 1, inquote = 0, escape = 1, base = 8, cval = 0,
           buf = [0x61, 0x5C, 0x20, 0x62, 0]\<rparr> = 1
   \<and> is_sep_space 0x20 default_seps
   \<and> \<not> fst (loop_body default_seps
              \<lparr>ptr_p = 2, ptr_o = 1, inquote = 0, escape = 1, base = 8, cval = 0,
               buf = [0x61, 0x5C, 0x20, 0x62, 0]\<rparr>)"
  using escaped_separator_is_no_delimiter
    [of "\<lparr>ptr_p = 2, ptr_o = 1, inquote = 0, escape = 1, base = 8, cval = 0,
          buf = [0x61, 0x5C, 0x20, 0x62, 0]\<rparr>" default_seps 0 None]
  by (simp add: is_sep_space_def strchr_def cstring_def default_seps_def)

section \<open>Separators in tokens\<close>

text \<open>
  Claim C7. When \<open>str_to_argv\<close> returns 0, take each returned token byte by byte, with
  the origin of each byte (\<open>tagged_tokens\<close> pairs the bytes the caller reads with the
  origins recorded along the run): every byte is either made by an escape sequence, or it
  is the input byte at some index, copied from there; and in the second case, if the byte
  is a separator, that occurrence in the input is quoted or escaped by the rules of the
  specification. So no unescaped, unquoted separator of the input is in a token.
\<close>

theorem token_separators_are_protected:
  assumes "ret (str_to_argv ins r_argc r_argv seps h) = 0"
  shows "map (map fst) (tagged_tokens (str_to_argv ins r_argc r_argv seps h) (provenance ins seps h))
           = tokens (str_to_argv ins r_argc r_argv seps h)
         \<and> (\<forall>tk \<in> set (tagged_tokens (str_to_argv ins r_argc r_argv seps h) (provenance ins seps h)).
              \<forall>(c, g) \<in> set tk.
                legit (cstring (case seps of None \<Rightarrow> default_seps | Some x \<Rightarrow> x)) (cstring ins) c g)"
proof (cases rule: strdup_cases [of ins h])
  case (1 h1)
  with assms show ?thesis by (simp add: str_to_argv_def ENOMEM_def)
next
  case sd: (2 orig_s h1)
  show ?thesis
  proof (cases rule: malloc_ptrs_cases [of 10 h1])
    case (1 h2)
    with sd assms show ?thesis by (simp add: str_to_argv_def ENOMEM_def)
  next
    case m: (2 a h2)
    let ?seps = "case seps of None \<Rightarrow> default_seps | Some x \<Rightarrow> x"
    let ?input = "cstring ins"
    let ?R = "str_to_argv ins r_argc r_argv seps h"
    let ?i = "\<lparr>mem = h2, s_ptr = 0, argv = a, tok = Uninit, argc = 0, args = 10, err = 0\<rparr>"
    let ?b = "chars h2 orig_s"
    let ?sh0 = "map From [0..<length ?b]"
    let ?st0 = "call_gettok ?seps orig_s ?i"
    let ?sh1 = "gettok_src ?b ?sh0 0 ?seps"
    let ?shf = "str_to_argv_loop_src ?seps orig_s ?st0 ?sh1"
    from sd m have pre: "strs h2 = (orig_s, ?input @ [0]) # strs h"
      "arrs h2 = (a, replicate 10 Uninit) # arrs h"
      "orig_s \<notin> fst ` set (strs h)" "a \<notin> fst ` set (arrs h)"
      by simp_all
    from pre(1) have b: "?b = ?input @ [0]" by (simp add: chars_def)
    from pre have oi: "owned h orig_s ?i" by (simp add: owned_def)
    have nz: "0 \<notin> set ?input"
      by (auto simp: cstring_def dest: set_takeWhileD)
    have bo: "between_ok ?seps ?input (chars (mem ?i) orig_s) ?sh0 (s_ptr ?i)"
      using nz by (simp add: between_ok_def unread_def b mode_before_def)
    have "run_ok ?seps ?input orig_s h (call_gettok ?seps orig_s ?i)
            (gettok_src (chars (mem ?i) orig_s) ?sh0 (s_ptr ?i) ?seps)"
    proof (rule call_gettok_run_ok [OF oi _ _ bo])
      show "length (ptrs (mem ?i) (argv ?i)) = args ?i"
        using pre(2) by (simp add: ptrs_def)
    qed simp_all
    then have ok0: "run_ok ?seps ?input orig_s h ?st0 ?sh1" by simp
    obtain j stf where l: "str_to_argv_loop ?seps orig_s ?st0 = (j, stf)"
      by (cases "str_to_argv_loop ?seps orig_s ?st0")
    let ?st2 = "if j then stf
                else stf\<lparr>mem := set_ptr (argv stf) (argc stf + 1) (Ref orig_s 0)
                                  (set_ptr (argv stf) (argc stf) Null (mem stf))\<rparr>"
    have rl: "run_loop ?seps orig_s a h2 = ?st2"
      using l by (simp add: run_loop_def Let_def)
    from assms have e0: "err ?st2 = 0"
      unfolding str_to_argv_unfold [OF sd(1) m(1)] rl by (simp add: Let_def split: if_splits)
    from str_to_argv_loop_jump_err [of ?seps orig_s ?st0] l e0 have nj: "\<not> j"
      by (auto simp: ENOMEM_def)
    with e0 have ef: "err stf = 0" by simp
    from str_to_argv_loop_run_ok [OF ok0] l nj have okf: "run_ok ?seps ?input orig_s h stf ?shf"
      by simp
    then have ow: "owned h orig_s stf"
      and bof: "between_ok ?seps ?input (chars (mem stf) orig_s) ?shf (s_ptr stf)"
      and toks: "\<And>k. k < argc stf \<Longrightarrow> \<exists>t. ptrs (mem stf) (argv stf) ! k = Ref orig_s t
            \<and> good_token ?seps ?input (chars (mem stf) orig_s) ?shf t (s_ptr stf)"
      and len: "length (ptrs (mem stf) (argv stf)) = args stf" "argc stf + 2 \<le> args stf"
      using ef by (simp_all add: run_ok_def)
    let ?B = "chars (mem stf) orig_s"
    let ?cells = "ptrs (mem stf) (argv stf)"
    from bof have ls: "length ?shf = length ?B" by (simp add: between_ok_def)
    have R: "mem_out ?R = mem ?st2" "argc_out ?R = int (argc stf)" "argv_out ?R = Some (argv stf)"
      unfolding str_to_argv_unfold [OF sd(1) m(1)] rl using e0 nj by (simp_all add: Let_def)
    have cB: "chars (mem ?st2) orig_s = ?B"
      using nj by (simp add: chars_set_ptr)
    from owned_set_ptr [OF ow, of "argc stf" Null]
    have ow1: "owned h orig_s (stf\<lparr>mem := set_ptr (argv stf) (argc stf) Null (mem stf)\<rparr>)" .
    have cells2: "ptrs (mem ?st2) (argv stf) = ?cells[argc stf := Null, argc stf + 1 := Ref orig_s 0]"
      using nj ptrs_set_ptr [OF ow1, of "argc stf + 1" "Ref orig_s 0"]
        ptrs_set_ptr [OF ow, of "argc stf" Null]
      by simp
    have prov: "provenance ins seps h = ?shf"
      by (simp add: provenance_def sd(1) m(1) Let_def)
    let ?front = "take (argc stf) (ptrs (mem ?st2) (argv stf))"
    have front: "q \<in> set ?front \<Longrightarrow>
                   \<exists>t. q = Ref orig_s t \<and> good_token ?seps ?input ?B ?shf t (s_ptr stf)" for q
    proof -
      assume "q \<in> set ?front"
      then obtain k where k: "k < length ?front" and q: "q = ?front ! k"
        by (metis in_set_conv_nth)
      from k have ka: "k < argc stf" by simp
      with q have "q = ?cells ! k"
        unfolding cells2 by simp
      with toks [OF ka] show ?thesis by auto
    qed
    have tt: "tagged_tokens ?R ?shf = map (tagged (mem ?st2) ?shf) ?front"
      and tk: "tokens ?R = map (string_at (mem ?st2)) ?front"
      by (simp_all add: tagged_tokens_def tokens_def R)
    have 1: "map (map fst) (tagged_tokens ?R ?shf) = tokens ?R"
      unfolding tt tk map_map map_eq_conv comp_def
    proof
      fix q assume "q \<in> set ?front"
      from front [OF this] obtain t where q: "q = Ref orig_s t"
        and gt: "good_token ?seps ?input ?B ?shf t (s_ptr stf)" by blast
      from good_token_tagged(1) [OF gt ls cB] show "map fst (tagged (mem ?st2) ?shf q) = string_at (mem ?st2) q"
        unfolding q .
    qed
    have 2: "\<forall>(c, g) \<in> set tg. legit (cstring ?seps) ?input c g"
      if "tg \<in> set (tagged_tokens ?R ?shf)" for tg
    proof -
      from that obtain q where qf: "q \<in> set ?front" and tg: "tg = tagged (mem ?st2) ?shf q"
        unfolding tt by auto
      from front [OF qf] obtain t where q: "q = Ref orig_s t"
        and gt: "good_token ?seps ?input ?B ?shf t (s_ptr stf)" by blast
      from good_token_tagged(2) [OF gt ls cB] show ?thesis
        unfolding tg q .
    qed
    from 1 2 show ?thesis
      unfolding prov by blast
  qed
qed


text \<open>
  The input \<open>a\ b" "c d\040\<close>: two tokens, \<open>a b c\<close> and \<open>d\<close> with a space. The first
  two spaces of the tokens are the escaped one (index 2) and the quoted one (index 5); the
  last is made by the octal escape; the space at index 8, neither quoted nor escaped, is in
  no token.
\<close>

theorem token_separators_are_protected_witness:
  "ret (str_to_argv [0x61, 0x5C, 0x20, 0x62, 0x22, 0x20, 0x22, 0x63, 0x20, 0x64, 0x5C, 0x30, 0x34, 0x30] 0 None None empty_heap) = 0
   \<and> tagged_tokens (str_to_argv [0x61, 0x5C, 0x20, 0x62, 0x22, 0x20, 0x22, 0x63, 0x20, 0x64, 0x5C, 0x30, 0x34, 0x30] 0 None None empty_heap) (provenance [0x61, 0x5C, 0x20, 0x62, 0x22, 0x20, 0x22, 0x63, 0x20, 0x64, 0x5C, 0x30, 0x34, 0x30] None empty_heap)
       = [[(0x61, From 0), (0x20, From 2), (0x62, From 3), (0x20, From 5), (0x63, From 7)],
          [(0x64, From 9), (0x20, Made)]]
   \<and> list_all (list_all (\<lambda>(c, g). legit (cstring default_seps) (cstring [0x61, 0x5C, 0x20, 0x62, 0x22, 0x20, 0x22, 0x63, 0x20, 0x64, 0x5C, 0x30, 0x34, 0x30]) c g))
        (tagged_tokens (str_to_argv [0x61, 0x5C, 0x20, 0x62, 0x22, 0x20, 0x22, 0x63, 0x20, 0x64, 0x5C, 0x30, 0x34, 0x30] 0 None None empty_heap)
          (provenance [0x61, 0x5C, 0x20, 0x62, 0x22, 0x20, 0x22, 0x63, 0x20, 0x64, 0x5C, 0x30, 0x34, 0x30] None empty_heap))
   \<and> protected (cstring default_seps) (cstring [0x61, 0x5C, 0x20, 0x62, 0x22, 0x20, 0x22, 0x63, 0x20, 0x64, 0x5C, 0x30, 0x34, 0x30]) 2
   \<and> protected (cstring default_seps) (cstring [0x61, 0x5C, 0x20, 0x62, 0x22, 0x20, 0x22, 0x63, 0x20, 0x64, 0x5C, 0x30, 0x34, 0x30]) 5
   \<and> \<not> protected (cstring default_seps) (cstring [0x61, 0x5C, 0x20, 0x62, 0x22, 0x20, 0x22, 0x63, 0x20, 0x64, 0x5C, 0x30, 0x34, 0x30]) 8"
proof -
  have r: "ret (str_to_argv [0x61, 0x5C, 0x20, 0x62, 0x22, 0x20, 0x22, 0x63, 0x20, 0x64, 0x5C, 0x30, 0x34, 0x30] 0 None None empty_heap) = 0"
    by code_simp
  have t: "tagged_tokens (str_to_argv [0x61, 0x5C, 0x20, 0x62, 0x22, 0x20, 0x22, 0x63, 0x20, 0x64, 0x5C, 0x30, 0x34, 0x30] 0 None None empty_heap) (provenance [0x61, 0x5C, 0x20, 0x62, 0x22, 0x20, 0x22, 0x63, 0x20, 0x64, 0x5C, 0x30, 0x34, 0x30] None empty_heap)
       = [[(0x61, From 0), (0x20, From 2), (0x62, From 3), (0x20, From 5), (0x63, From 7)],
          [(0x64, From 9), (0x20, Made)]]"
    by code_simp
  have p: "protected (cstring default_seps) (cstring [0x61, 0x5C, 0x20, 0x62, 0x22, 0x20, 0x22, 0x63, 0x20, 0x64, 0x5C, 0x30, 0x34, 0x30]) 2"
    "protected (cstring default_seps) (cstring [0x61, 0x5C, 0x20, 0x62, 0x22, 0x20, 0x22, 0x63, 0x20, 0x64, 0x5C, 0x30, 0x34, 0x30]) 5"
    "\<not> protected (cstring default_seps) (cstring [0x61, 0x5C, 0x20, 0x62, 0x22, 0x20, 0x22, 0x63, 0x20, 0x64, 0x5C, 0x30, 0x34, 0x30]) 8"
    by code_simp+
  from token_separators_are_protected [OF r, THEN conjunct2]
  have l: "list_all (list_all (\<lambda>(c, g). legit (cstring default_seps) (cstring [0x61, 0x5C, 0x20, 0x62, 0x22, 0x20, 0x22, 0x63, 0x20, 0x64, 0x5C, 0x30, 0x34, 0x30]) c g))
        (tagged_tokens (str_to_argv [0x61, 0x5C, 0x20, 0x62, 0x22, 0x20, 0x22, 0x63, 0x20, 0x64, 0x5C, 0x30, 0x34, 0x30] 0 None None empty_heap)
          (provenance [0x61, 0x5C, 0x20, 0x62, 0x22, 0x20, 0x22, 0x63, 0x20, 0x64, 0x5C, 0x30, 0x34, 0x30] None empty_heap))"
    unfolding list_all_iff by simp
  from r t l p show ?thesis
    by (intro conjI)
qed

section \<open>A three-digit octal escape\<close>

text \<open>
  Claim C8. On the four bytes backslash, \<open>1\<close>, \<open>0\<close>, \<open>1\<close> (5C 31 30 31) with the
  default separators \<open>str_to_argv\<close> returns 0, sets \<open>*r_argc\<close> to 1, and the one token is
  the single byte 65. The one call of \<open>gettok\<close> that yields it leaves the cursor on the
  terminator, index 4: the three digits went into the escape.
\<close>

theorem octal_101_is_65:
  "ret (str_to_argv [0x5C, 0x31, 0x30, 0x31] r_argc r_argv None empty_heap) = 0
   \<and> argc_out (str_to_argv [0x5C, 0x31, 0x30, 0x31] r_argc r_argv None empty_heap) = 1
   \<and> tokens (str_to_argv [0x5C, 0x31, 0x30, 0x31] r_argc r_argv None empty_heap) = [[65]]
   \<and> s_out (gettok [0x5C, 0x31, 0x30, 0x31, 0] 0 default_seps) = 4"
proof -
  have "ret (str_to_argv [0x5C, 0x31, 0x30, 0x31] r_argc r_argv None empty_heap) = 0"
    by code_simp
  moreover have "argc_out (str_to_argv [0x5C, 0x31, 0x30, 0x31] r_argc r_argv None empty_heap) = 1"
    by code_simp
  moreover have "tokens (str_to_argv [0x5C, 0x31, 0x30, 0x31] r_argc r_argv None empty_heap) = [[65]]"
    by code_simp
  moreover have "s_out (gettok [0x5C, 0x31, 0x30, 0x31, 0] 0 default_seps) = 4"
    by code_simp
  ultimately show ?thesis by blast
qed

section \<open>Escapes inside quotes\<close>

text \<open>
  Claim C9. A backslash under the read cursor starts an escape whatever \<open>inquote\<close>
  holds (NUL, single quote or double quote), and a character taken by an escape (the
  one after the backslash, or a digit of the class being collected) is handled without
  looking at \<open>inquote\<close>: the body does what it does outside quotes and leaves
  \<open>inquote\<close> as it is. On the input \<open>"a\nb"\<close> (22 61 5C 6E 62 22) \<open>str_to_argv\<close>
  returns 0 with one token, \<open>a\<close>, newline, \<open>b\<close>.
\<close>

theorem escapes_inside_quotes:
  "(escape st = 0 \<and> rd (buf st) (ptr_p st) = 0x5C \<and> (q = 0 \<or> q = 0x27 \<or> q = 0x22) \<longrightarrow>
      loop_body seps (st\<lparr>inquote := q\<rparr>) = (False, st\<lparr>inquote := q, escape := 1\<rparr>))
   \<and> (escape st = 1
        \<or> (2 \<le> escape st
            \<and> ((base st = 16 \<and> isxdigit (rd (buf st) (ptr_p st))) \<or> isodigit (rd (buf st) (ptr_p st)))) \<longrightarrow>
      loop_body seps (st\<lparr>inquote := q\<rparr>)
        = (False, (snd (loop_body seps (st\<lparr>inquote := 0\<rparr>)))\<lparr>inquote := q\<rparr>))
   \<and> ret (str_to_argv [0x22, 0x61, 0x5C, 0x6E, 0x62, 0x22] r_argc r_argv None empty_heap) = 0
   \<and> argc_out (str_to_argv [0x22, 0x61, 0x5C, 0x6E, 0x62, 0x22] r_argc r_argv None empty_heap) = 1
   \<and> tokens (str_to_argv [0x22, 0x61, 0x5C, 0x6E, 0x62, 0x22] r_argc r_argv None empty_heap)
       = [[0x61, 0x0A, 0x62]]"
proof -
  have "loop_body seps (st\<lparr>inquote := q\<rparr>) = (False, st\<lparr>inquote := q, escape := 1\<rparr>)"
    if "escape st = 0" "rd (buf st) (ptr_p st) = 0x5C" "q = 0 \<or> q = 0x27 \<or> q = 0x22"
    using that by (auto simp: loop_body_def process_char_def)
  moreover have "loop_body seps (st\<lparr>inquote := q\<rparr>)
        = (False, (snd (loop_body seps (st\<lparr>inquote := 0\<rparr>)))\<lparr>inquote := q\<rparr>)"
    if "escape st = 1
        \<or> (2 \<le> escape st
            \<and> ((base st = 16 \<and> isxdigit (rd (buf st) (ptr_p st))) \<or> isodigit (rd (buf st) (ptr_p st))))"
    using that by (auto simp: loop_body_def put_def Let_def)
  moreover have "ret (str_to_argv [0x22, 0x61, 0x5C, 0x6E, 0x62, 0x22] r_argc r_argv None empty_heap) = 0"
    by code_simp
  moreover have "argc_out (str_to_argv [0x22, 0x61, 0x5C, 0x6E, 0x62, 0x22] r_argc r_argv None empty_heap) = 1"
    by code_simp
  moreover have "tokens (str_to_argv [0x22, 0x61, 0x5C, 0x6E, 0x62, 0x22] r_argc r_argv None empty_heap)
       = [[0x61, 0x0A, 0x62]]"
    by code_simp
  ultimately show ?thesis by blast
qed


text \<open>
  In the scan of \<open>"a\nb"\<close>: on the backslash, inside the double quote, the body sets
  \<open>escape\<close> to 1; on the \<open>n\<close> after it the body writes a newline.
\<close>

theorem escapes_inside_quotes_witness:
  "loop_body default_seps
     \<lparr>ptr_p = 2, ptr_o = 1, inquote = 0x22, escape = 0, base = 8, cval = 0,
      buf = [0x61, 0x61, 0x5C, 0x6E, 0x62, 0x22, 0]\<rparr>
    = (False, \<lparr>ptr_p = 2, ptr_o = 1, inquote = 0x22, escape = 1, base = 8, cval = 0,
               buf = [0x61, 0x61, 0x5C, 0x6E, 0x62, 0x22, 0]\<rparr>)
   \<and> loop_body default_seps
     \<lparr>ptr_p = 3, ptr_o = 1, inquote = 0x22, escape = 1, base = 8, cval = 0,
      buf = [0x61, 0x61, 0x5C, 0x6E, 0x62, 0x22, 0]\<rparr>
    = (False, \<lparr>ptr_p = 3, ptr_o = 2, inquote = 0x22, escape = 0, base = 8, cval = 0,
               buf = [0x61, 0x0A, 0x5C, 0x6E, 0x62, 0x22, 0]\<rparr>)"
proof -
  let ?a = "\<lparr>ptr_p = 2, ptr_o = 1, inquote = 0x22, escape = 0, base = 8, cval = 0,
             buf = [0x61, 0x61, 0x5C, 0x6E, 0x62, 0x22, 0::byte]\<rparr>"
  let ?b = "\<lparr>ptr_p = 3, ptr_o = 1, inquote = 0x22, escape = 1, base = 8, cval = 0,
             buf = [0x61, 0x61, 0x5C, 0x6E, 0x62, 0x22, 0::byte]\<rparr>"
  have ha: "escape ?a = 0 \<and> rd (buf ?a) (ptr_p ?a) = 0x5C
            \<and> ((0x22::byte) = 0 \<or> (0x22::byte) = 0x27 \<or> (0x22::byte) = 0x22)"
    by (simp add: rd_def)
  have hb: "escape ?b = 1
        \<or> (2 \<le> escape ?b
            \<and> ((base ?b = 16 \<and> isxdigit (rd (buf ?b) (ptr_p ?b))) \<or> isodigit (rd (buf ?b) (ptr_p ?b))))"
    by simp
  from escapes_inside_quotes [of ?a "0x22" default_seps 0 None, THEN conjunct1, THEN mp, OF ha]
  have 1: "loop_body default_seps ?a = (False, ?a\<lparr>escape := 1\<rparr>)"
    by simp
  from escapes_inside_quotes [of ?b "0x22" default_seps 0 None, THEN conjunct2, THEN conjunct1,
      THEN mp, OF hb]
  have "loop_body default_seps ?b
        = (False, (snd (loop_body default_seps (?b\<lparr>inquote := 0\<rparr>)))\<lparr>inquote := 0x22\<rparr>)"
    by simp
  then have 2: "loop_body default_seps ?b
    = (False, \<lparr>ptr_p = 3, ptr_o = 2, inquote = 0x22, escape = 0, base = 8, cval = 0,
               buf = [0x61, 0x0A, 0x5C, 0x6E, 0x62, 0x22, 0]\<rparr>)"
    by (simp add: loop_body_def rd_def put_def named_escape_def isodigit_def isdigit_def)
  from 1 2 show ?thesis
    by simp
qed

section \<open>A hex escape with no digit\<close>

text \<open>
  Claim C10, as stated: after \<open>\x\<close> a character that is not a hex digit, before the end
  of the buffer, makes \<open>gettok\<close> flush a zero byte, and parsing succeeds. On the input
  22 5C 78 67 (a double quote, a backslash, \<open>x\<close>, \<open>g\<close>) the \<open>x\<close> is followed by
  \<open>g\<close>, which is no hex digit and not the terminator; the zero byte is flushed and the
  \<open>g\<close> copied, and \<open>gettok\<close> returns -1 without setting the token, since the quote is
  still open when the buffer ends. On 61 5C 78 67 5C (\<open>a\<close>, backslash, \<open>x\<close>, \<open>g\<close>,
  backslash) it returns -1 as well, for the backslash at the end. \<open>str_to_argv\<close>
  returns -1 on both.
\<close>

theorem hex_escape_in_open_quote_counterexample:
  "loop_body default_seps
      \<lparr>ptr_p = 2, ptr_o = 0, inquote = 0x22, escape = 1, base = 8, cval = 0,
       buf = [0x22, 0x5C, 0x78, 0x67, 0]\<rparr>
     = (False, \<lparr>ptr_p = 2, ptr_o = 0, inquote = 0x22, escape = 2, base = 16, cval = 0,
                buf = [0x22, 0x5C, 0x78, 0x67, 0]\<rparr>)
   \<and> rd [0x22, 0x5C, 0x78, 0x67, 0] 3 = 0x67
   \<and> \<not> isxdigit 0x67
   \<and> gettok_loop default_seps
        \<lparr>ptr_p = 0, ptr_o = 0, inquote = 0, escape = 0, base = 8, cval = 0,
         buf = [0x22, 0x5C, 0x78, 0x67, 0]\<rparr>
       = \<lparr>ptr_p = 4, ptr_o = 2, inquote = 0x22, escape = 0, base = 16, cval = 0,
          buf = [0, 0x67, 0x78, 0x67, 0]\<rparr>
   \<and> gettok [0x22, 0x5C, 0x78, 0x67, 0] 0 default_seps
       = \<lparr>rv = - 1, s_out = 4, tok_out = Unset, buf_out = [0, 0x67, 0x78, 0x67, 0]\<rparr>
   \<and> ret (str_to_argv [0x22, 0x5C, 0x78, 0x67] 0 None None empty_heap) = - 1
   \<and> gettok [0x61, 0x5C, 0x78, 0x67, 0x5C, 0] 0 default_seps
       = \<lparr>rv = - 1, s_out = 5, tok_out = Unset, buf_out = [0x61, 0, 0x67, 0x67, 0x5C, 0]\<rparr>
   \<and> ret (str_to_argv [0x61, 0x5C, 0x78, 0x67, 0x5C] 0 None None empty_heap) = - 1"
  by code_simp

text \<open>
  Claim C10, amended. With the read cursor on the \<open>x\<close> that follows a backslash: if the
  next character is not the terminator and not a hex digit, that alone is no error. The
  scan goes on as from the state in which a zero byte has been written at the write
  cursor, no escape is pending and the read cursor is on that next character, which the
  write has not changed; the zero byte is still at that place in the buffer \<open>gettok\<close>
  leaves. The call returns 0 or -1, and with 0 it sets the token. It returns -1 exactly
  when the scan reaches the terminator and the characters from the one after \<open>x\<close> on,
  read under the normal rules with the quote that was open at the \<open>x\<close>, end inside a
  quote or in an escape with no digit where one is required; it returns 0, then, when no
  quote is open at the \<open>x\<close> and no quote character and no backslash follows before the
  terminator. If the character after
  \<open>x\<close> is the terminator, \<open>gettok\<close> returns -1 and sets no token. On the input
  61 5C 78 67 62 (\<open>a\<close>, backslash, \<open>x\<close>, \<open>g\<close>, \<open>b\<close>) \<open>str_to_argv\<close> returns 0 and
  the buffer holds \<open>a\<close>, NUL, \<open>g\<close>, \<open>b\<close>, NUL; on 22 5C 78 67 22, where the quote is
  closed after the \<open>g\<close>, it returns 0 and the buffer holds NUL, \<open>g\<close>, NUL.
\<close>

theorem hex_escape_without_digits:
  assumes "scan_inv st" and "escape st = 1" and "rd (buf st) (ptr_p st) = 0x78"
  shows "(rd (buf st) (ptr_p st + 1) \<noteq> 0 \<and> \<not> isxdigit (rd (buf st) (ptr_p st + 1)) \<longrightarrow>
            rd ((buf st)[ptr_o st := 0]) (ptr_p st + 1) = rd (buf st) (ptr_p st + 1)
          \<and> gettok_loop seps st
              = gettok_loop seps
                  (st\<lparr>buf := (buf st)[ptr_o st := 0], ptr_o := ptr_o st + 1, escape := 0,
                      base := 16, cval := 0, ptr_p := ptr_p st + 1\<rparr>)
          \<and> buf_out (gettok_finish t (gettok_loop seps st)) ! ptr_o st = 0
          \<and> (rv (gettok_finish t (gettok_loop seps st)) = 0
              \<or> rv (gettok_finish t (gettok_loop seps st)) = - 1)
          \<and> (rv (gettok_finish t (gettok_loop seps st)) = 0 \<longrightarrow>
                tok_out (gettok_finish t (gettok_loop seps st)) = SetTok t)
          \<and> (rv (gettok_finish t (gettok_loop seps st)) = - 1 \<longleftrightarrow>
                rd (buf (gettok_loop seps st)) (ptr_p (gettok_loop seps st)) = 0
                \<and> malformed (rest_mode seps (Inside (quoting_of (inquote st)) NoEscape)
                               (buf st) (ptr_p st + 1)))
          \<and> (inquote st = 0
              \<and> (\<forall>c \<in> set (cstring (drop (ptr_p st + 1) (buf st))).
                    c \<noteq> 0x27 \<and> c \<noteq> 0x22 \<and> c \<noteq> 0x5C) \<longrightarrow>
                rv (gettok_finish t (gettok_loop seps st)) = 0
                \<and> tok_out (gettok_finish t (gettok_loop seps st)) = SetTok t))
       \<and> (rd (buf st) (ptr_p st + 1) = 0 \<longrightarrow>
            rv (gettok_finish t (gettok_loop seps st)) = - 1
          \<and> tok_out (gettok_finish t (gettok_loop seps st)) = Unset)
       \<and> ret (str_to_argv [0x61, 0x5C, 0x78, 0x67, 0x62] r_argc r_argv None empty_heap) = 0
       \<and> mem_out (str_to_argv [0x61, 0x5C, 0x78, 0x67, 0x62] r_argc r_argv None empty_heap)
           = \<lparr>strs = [(1, [0x61, 0, 0x67, 0x62, 0, 0])],
              arrs = [(2, [Ref 1 0, Null, Ref 1 0, Uninit, Uninit, Uninit, Uninit, Uninit,
                           Uninit, Uninit])],
              fails = []\<rparr>
       \<and> ret (str_to_argv [0x22, 0x5C, 0x78, 0x67, 0x22] r_argc r_argv None empty_heap) = 0
       \<and> mem_out (str_to_argv [0x22, 0x5C, 0x78, 0x67, 0x22] r_argc r_argv None empty_heap)
           = \<lparr>strs = [(1, [0, 0x67, 0, 0x67, 0x22, 0])],
              arrs = [(2, [Ref 1 0, Null, Ref 1 0, Uninit, Uninit, Uninit, Uninit, Uninit,
                           Uninit, Uninit])],
              fails = []\<rparr>"
proof -
  let ?st1 = "st\<lparr>cval := 0, base := 16, escape := 2, ptr_p := ptr_p st + 1\<rparr>"
  let ?st2 = "st\<lparr>buf := (buf st)[ptr_o st := 0], ptr_o := ptr_o st + 1, escape := 0,
                 base := 16, cval := 0, ptr_p := ptr_p st + 1\<rparr>"
  let ?g = "gettok_finish t (gettok_loop seps st)"
  have nz: "rd (buf st) (ptr_p st) \<noteq> 0"
    using assms(3) by simp
  have body: "loop_body seps st = (False, st\<lparr>cval := 0, base := 16, escape := 2\<rparr>)"
    using assms(2,3) by (simp add: loop_body_def isodigit_def isdigit_def)
  have first: "gettok_loop seps st = gettok_loop seps ?st1"
    using gettok_loop_step [OF nz body] by simp
  have inv1: "scan_inv ?st1"
    using scan_inv_step [OF assms(1) body] by simp
  have lt: "ptr_o st < ptr_p st" "ptr_p st < length (buf st)"
    using assms(1,2) rd_nonzero_in_range [OF nz] by (simp_all add: scan_inv_def)
  have A: "rd ((buf st)[ptr_o st := 0]) (ptr_p st + 1) = rd (buf st) (ptr_p st + 1)
          \<and> gettok_loop seps st = gettok_loop seps ?st2
          \<and> buf_out ?g ! ptr_o st = 0
          \<and> (rv ?g = 0 \<or> rv ?g = - 1)
          \<and> (rv ?g = 0 \<longrightarrow> tok_out ?g = SetTok t)
          \<and> (rv ?g = - 1 \<longleftrightarrow>
                rd (buf (gettok_loop seps st)) (ptr_p (gettok_loop seps st)) = 0
                \<and> malformed (rest_mode seps (Inside (quoting_of (inquote st)) NoEscape)
                               (buf st) (ptr_p st + 1)))
          \<and> (inquote st = 0
              \<and> (\<forall>c \<in> set (cstring (drop (ptr_p st + 1) (buf st))).
                    c \<noteq> 0x27 \<and> c \<noteq> 0x22 \<and> c \<noteq> 0x5C) \<longrightarrow>
                rv ?g = 0 \<and> tok_out ?g = SetTok t)"
    if c: "rd (buf st) (ptr_p st + 1) \<noteq> 0" "\<not> isxdigit (rd (buf st) (ptr_p st + 1))"
  proof -
    have same: "rd ((buf st)[ptr_o st := 0]) (ptr_p st + 1) = rd (buf st) (ptr_p st + 1)"
      using lt by (simp add: rd_update_other)
    have eq: "?st1\<lparr>buf := (buf ?st1)[ptr_o ?st1 := cval ?st1], ptr_o := ptr_o ?st1 + 1,
               escape := 0\<rparr> = ?st2"
      by (rule gt.equality) simp_all
    have e2: "2 \<le> escape ?st1"
      by simp
    have nz1: "rd (buf ?st1) (ptr_p ?st1) \<noteq> 0"
      using c by simp
    have cls: "(base ?st1 = 8 \<and> \<not> isodigit (rd (buf ?st1) (ptr_p ?st1)))
         \<or> (base ?st1 = 16 \<and> \<not> isxdigit (rd (buf ?st1) (ptr_p ?st1)))"
      using c by simp
    have "gettok_loop seps ?st1 = gettok_loop seps ?st2"
      using gettok_loop_interrupted(3) [OF inv1 e2 nz1 cls, of seps] unfolding eq .
    with first have run: "gettok_loop seps st = gettok_loop seps ?st2"
      by simp
    from gettok_loop_below [of ?st2 seps]
    have "ptr_o st < ptr_o (gettok_loop seps ?st2)"
      and "buf (gettok_loop seps ?st2) ! ptr_o st = 0"
      using lt by simp_all
    with run have zero: "buf_out ?g ! ptr_o st = 0"
      by (simp add: gettok_finish_below)
    have inv2: "scan_inv ?st2"
      using assms(1,2) by (simp add: scan_inv_def)
    have m2: "mode_of ?st2 = Inside (quoting_of (inquote st)) NoEscape"
      by (simp add: mode_of_def escaping_of_def)
    have d: "drop (ptr_p st + 1) (buf ?st2) = drop (ptr_p st + 1) (buf st)"
      using lt by (simp add: drop_update_cancel)
    have p2: "ptr_p ?st2 = ptr_p st + 1"
      by simp
    have r2: "rest_mode seps (mode_of ?st2) (buf ?st2) (ptr_p ?st2)
          = rest_mode seps (Inside (quoting_of (inquote st)) NoEscape) (buf st) (ptr_p st + 1)"
      unfolding m2 p2 using d by (rule rest_mode_cong)
    from gettok_loop_outcome [OF inv2, of t seps]
    have out: "rv ?g = - 1 \<longleftrightarrow>
                rd (buf (gettok_loop seps st)) (ptr_p (gettok_loop seps st)) = 0
                \<and> malformed (rest_mode seps (Inside (quoting_of (inquote st)) NoEscape)
                               (buf st) (ptr_p st + 1))"
      unfolding r2 run [symmetric] .
    have plain: "rv ?g = 0 \<and> tok_out ?g = SetTok t"
      if p: "inquote st = 0"
        "\<forall>c \<in> set (cstring (drop (ptr_p st + 1) (buf st))). c \<noteq> 0x27 \<and> c \<noteq> 0x22 \<and> c \<noteq> 0x5C"
    proof -
      from p(1) have "quoting_of (inquote st) = Unquoted"
        by (simp add: quoting_of_def)
      with plain_rest_not_malformed [OF p(2), of "Inside Unquoted NoEscape" "cstring seps"]
      have "\<not> malformed (rest_mode seps (Inside (quoting_of (inquote st)) NoEscape)
                            (buf st) (ptr_p st + 1))"
        unfolding rest_mode_def by auto
      with out have "rv ?g \<noteq> - 1"
        by simp
      with gettok_finish_rv [of t "gettok_loop seps st"] have "rv ?g = 0"
        by simp
      with gettok_finish_tok [of t "gettok_loop seps st"] show ?thesis
        by simp
    qed
    from same run zero gettok_finish_rv [of t "gettok_loop seps st"]
      gettok_finish_tok [of t "gettok_loop seps st"] out plain
    show ?thesis by blast
  qed
  have B: "rv ?g = - 1 \<and> tok_out ?g = Unset"
    if "rd (buf st) (ptr_p st + 1) = 0"
  proof -
    from that have "gettok_loop seps ?st1 = ?st1"
      by (simp add: gettok_loop_stop)
    with first show ?thesis
      by (simp add: gettok_finish_def)
  qed
  have e1: "ret (str_to_argv [0x61, 0x5C, 0x78, 0x67, 0x62] r_argc r_argv None empty_heap) = 0"
    by code_simp
  have e2: "mem_out (str_to_argv [0x61, 0x5C, 0x78, 0x67, 0x62] r_argc r_argv None empty_heap)
           = \<lparr>strs = [(1, [0x61, 0, 0x67, 0x62, 0, 0])],
              arrs = [(2, [Ref 1 0, Null, Ref 1 0, Uninit, Uninit, Uninit, Uninit, Uninit,
                           Uninit, Uninit])],
              fails = []\<rparr>"
    by code_simp
  have e3: "ret (str_to_argv [0x22, 0x5C, 0x78, 0x67, 0x22] r_argc r_argv None empty_heap) = 0"
    by code_simp
  have e4: "mem_out (str_to_argv [0x22, 0x5C, 0x78, 0x67, 0x22] r_argc r_argv None empty_heap)
           = \<lparr>strs = [(1, [0, 0x67, 0, 0x67, 0x22, 0])],
              arrs = [(2, [Ref 1 0, Null, Ref 1 0, Uninit, Uninit, Uninit, Uninit, Uninit,
                           Uninit, Uninit])],
              fails = []\<rparr>"
    by code_simp
  from A B e1 e2 e3 e4 show ?thesis by blast
qed

text \<open>
  The scans of 61 5C 78 67 62, of 22 5C 78 67 and of 61 5C 78, each on its \<open>x\<close>. The
  first leaves a zero byte at index 1 and succeeds with the token; the second leaves a
  zero byte at index 0 and fails, the quote being open at the end; the third fails on
  the terminator after the \<open>x\<close>.
\<close>

theorem hex_escape_without_digits_witness:
  "scan_inv \<lparr>ptr_p = 2, ptr_o = 1, inquote = 0, escape = 1, base = 8, cval = 0,
             buf = [0x61, 0x5C, 0x78, 0x67, 0x62, 0]\<rparr>
   \<and> \<not> isxdigit 0x67
   \<and> buf_out (gettok_finish 0 (gettok_loop default_seps
        \<lparr>ptr_p = 2, ptr_o = 1, inquote = 0, escape = 1, base = 8, cval = 0,
         buf = [0x61, 0x5C, 0x78, 0x67, 0x62, 0]\<rparr>)) ! 1 = 0
   \<and> rv (gettok_finish 0 (gettok_loop default_seps
        \<lparr>ptr_p = 2, ptr_o = 1, inquote = 0, escape = 1, base = 8, cval = 0,
         buf = [0x61, 0x5C, 0x78, 0x67, 0x62, 0]\<rparr>)) = 0
   \<and> tok_out (gettok_finish 0 (gettok_loop default_seps
        \<lparr>ptr_p = 2, ptr_o = 1, inquote = 0, escape = 1, base = 8, cval = 0,
         buf = [0x61, 0x5C, 0x78, 0x67, 0x62, 0]\<rparr>)) = SetTok 0
   \<and> scan_inv \<lparr>ptr_p = 2, ptr_o = 0, inquote = 0x22, escape = 1, base = 8, cval = 0,
               buf = [0x22, 0x5C, 0x78, 0x67, 0]\<rparr>
   \<and> buf_out (gettok_finish 0 (gettok_loop default_seps
        \<lparr>ptr_p = 2, ptr_o = 0, inquote = 0x22, escape = 1, base = 8, cval = 0,
         buf = [0x22, 0x5C, 0x78, 0x67, 0]\<rparr>)) ! 0 = 0
   \<and> rv (gettok_finish 0 (gettok_loop default_seps
        \<lparr>ptr_p = 2, ptr_o = 0, inquote = 0x22, escape = 1, base = 8, cval = 0,
         buf = [0x22, 0x5C, 0x78, 0x67, 0]\<rparr>)) = - 1
   \<and> scan_inv \<lparr>ptr_p = 2, ptr_o = 1, inquote = 0, escape = 1, base = 8, cval = 0,
               buf = [0x61, 0x5C, 0x78, 0]\<rparr>
   \<and> rv (gettok_finish 0 (gettok_loop default_seps
        \<lparr>ptr_p = 2, ptr_o = 1, inquote = 0, escape = 1, base = 8, cval = 0,
         buf = [0x61, 0x5C, 0x78, 0]\<rparr>)) = - 1"
proof -
  let ?a = "\<lparr>ptr_p = 2, ptr_o = 1, inquote = 0, escape = 1, base = 8, cval = 0,
             buf = [0x61, 0x5C, 0x78, 0x67, 0x62, 0::byte]\<rparr>"
  let ?q = "\<lparr>ptr_p = 2, ptr_o = 0, inquote = 0x22, escape = 1, base = 8, cval = 0,
             buf = [0x22, 0x5C, 0x78, 0x67, 0::byte]\<rparr>"
  let ?b = "\<lparr>ptr_p = 2, ptr_o = 1, inquote = 0, escape = 1, base = 8, cval = 0,
             buf = [0x61, 0x5C, 0x78, 0::byte]\<rparr>"
  have inv: "scan_inv ?a" "scan_inv ?q" "scan_inv ?b"
    by (simp_all add: scan_inv_def)
  have esc: "escape ?a = 1" "escape ?q = 1" "escape ?b = 1"
    by simp_all
  have x: "rd (buf ?a) (ptr_p ?a) = 0x78" "rd (buf ?q) (ptr_p ?q) = 0x78"
    "rd (buf ?b) (ptr_p ?b) = 0x78"
    by (simp_all add: rd_def)
  have g: "\<not> isxdigit 0x67"
    by (simp add: isxdigit_def isdigit_def)
  have ca: "rd (buf ?a) (ptr_p ?a + 1) \<noteq> 0 \<and> \<not> isxdigit (rd (buf ?a) (ptr_p ?a + 1))"
    by (simp add: rd_def isxdigit_def isdigit_def)
  have cq: "rd (buf ?q) (ptr_p ?q + 1) \<noteq> 0 \<and> \<not> isxdigit (rd (buf ?q) (ptr_p ?q + 1))"
    by (simp add: rd_def isxdigit_def isdigit_def)
  have e: "rd (buf ?b) (ptr_p ?b + 1) = 0"
    by (simp add: rd_def)
  note a = hex_escape_without_digits [OF inv(1) esc(1) x(1),
      where seps = default_seps and t = 0, THEN conjunct1, THEN mp, OF ca]
  note q = hex_escape_without_digits [OF inv(2) esc(2) x(2),
      where seps = default_seps and t = 0, THEN conjunct1, THEN mp, OF cq]
  note b = hex_escape_without_digits [OF inv(3) esc(3) x(3),
      where seps = default_seps and t = 0, THEN conjunct2, THEN conjunct1, THEN mp, OF e]
  have ma: "inquote ?a = 0
            \<and> (\<forall>c \<in> set (cstring (drop (ptr_p ?a + 1) (buf ?a))).
                  c \<noteq> 0x27 \<and> c \<noteq> 0x22 \<and> c \<noteq> 0x5C)"
    by (simp add: cstring_def)
  have mq: "rd (buf (gettok_loop default_seps ?q)) (ptr_p (gettok_loop default_seps ?q)) = 0
            \<and> malformed (rest_mode default_seps (Inside (quoting_of (inquote ?q)) NoEscape)
                           (buf ?q) (ptr_p ?q + 1))"
    by code_simp
  from a have "buf_out (gettok_finish 0 (gettok_loop default_seps ?a)) ! ptr_o ?a = 0"
    by (elim conjE)
  then have 1: "buf_out (gettok_finish 0 (gettok_loop default_seps ?a)) ! 1 = 0"
    by simp
  from a ma have 2: "rv (gettok_finish 0 (gettok_loop default_seps ?a)) = 0"
    by blast
  with a have 3: "tok_out (gettok_finish 0 (gettok_loop default_seps ?a)) = SetTok 0"
    by blast
  from q have "buf_out (gettok_finish 0 (gettok_loop default_seps ?q)) ! ptr_o ?q = 0"
    by (elim conjE)
  then have 4: "buf_out (gettok_finish 0 (gettok_loop default_seps ?q)) ! 0 = 0"
    by simp
  from q mq have 5: "rv (gettok_finish 0 (gettok_loop default_seps ?q)) = - 1"
    by blast
  from b have 6: "rv (gettok_finish 0 (gettok_loop default_seps ?b)) = - 1"
    by (rule conjunct1)
  from inv(1) g 1 2 3 inv(2) 4 5 inv(3) 6 show ?thesis
    by (intro conjI)
qed

end
